theory Spec2Isabelle
  imports Main "HOL-Library.Sublist"
begin

section \<open>The world around build.js\<close>

text \<open>
  The script build.js shells out to external tools, reads and writes a few files, spawns a
  static file server and prints progress lines. Its own logic is the order of these
  effects and what happens when one of them fails. The model keeps exactly that: every
  function of the script is an action on the file system that returns a result or a
  thrown error together with the list of effects it performed, in order.
\<close>

datatype node = File string | Dir

type_synonym fs = "string \<rightharpoonup> node"

datatype stdio = Inherit | Pipe | Ignore

datatype error =
    ExecError string  \<comment> \<open>execSync: the command exited non-zero\<close>
  | FsError string    \<comment> \<open>fs.readFileSync / fs.writeFileSync threw on this path\<close>
  | BridgeError       \<comment> \<open>require('./Computer.js') or Tables.writeAllFeaturePages() threw\<close>

text \<open>
  The console lines of the script, one constructor for each template; the parameters are
  the interpolated values. The elapsed time printed with \<open>BuildComplete\<close> comes from the
  clock and is left out.
\<close>

datatype msg =
    Running string string       \<comment> \<open>run: blank line, [basename cwd] Running: cmd\<close>
  | RunningQuiet string string  \<comment> \<open>runQuiet: [basename cwd] Running: cmd\<close>
  | CommandFailed string
  | Banner | Rule
  | Step1 | Step2 | Step3 | Step4 | FeaturePagesGenerated | Step5
  | Building string | Built string | HadErrors string
  | RuleNL | BuildComplete
  | NotOnWindows | ParsersNotFound | Patching | Patched | NestedPatched | AlreadyPatched
  | SettingUp | WroteMaintenance | StartingServer
  | ServerRunning | NowServing | PressCtrlC
  | ToStartServer | OrNodeBuildServe
  | BuildFailed error
  | ShuttingDown

datatype event =
    Log msg                           \<comment> \<open>console.log\<close>
  | LogError msg                      \<comment> \<open>console.error\<close>
  | Exec stdio string string bool     \<comment> \<open>execSync cmd in cwd; the flag: exit status was zero\<close>
  | FeaturePages bool                 \<comment> \<open>the bridging call; the flag: it returned normally\<close>
  | WriteFile string                  \<comment> \<open>fs.writeFileSync on a path, done\<close>
  | Spawn string "string list" string stdio bool
      \<comment> \<open>spawn command, arguments, cwd, stdio, the shell option\<close>
  | Kill                              \<comment> \<open>serverProcess.kill()\<close>
  | OnSIGINT                          \<comment> \<open>process.on('SIGINT', ...)\<close>
  | Uncaught error                    \<comment> \<open>an exception nobody caught\<close>
  | Exit nat                          \<comment> \<open>the process ends with this status\<close>

text \<open>
  What the script cannot decide by itself is a parameter: the platform, the directory of
  the script, what an external command does to the file system and whether it exits with
  status zero, what the bridging module does, which paths refuse a read and which a write,
  whether another process already holds the port of the server, and what the server
  program does then: \<open>server_stays env taken\<close> says whether the server, once started,
  keeps running by itself (it is up and answering) or ends by itself (it could not bind
  the port, or could not start at all). No line of the script looks at the port or at the
  fate of the child; they only decide how long the process of the script lives.
  What a command does may depend on its command line, its working directory and the file
  system it finds; a run never executes the same command line twice in one directory.
\<close>

record env =
  platform :: string
  dirname :: string
  shell :: "string \<Rightarrow> string \<Rightarrow> fs \<Rightarrow> bool \<times> fs"
  computer :: "fs \<Rightarrow> bool \<times> fs"
  read_error :: "string \<Rightarrow> bool"
  write_error :: "string \<Rightarrow> bool"
  port_in_use :: bool
  server_stays :: "bool \<Rightarrow> bool"

type_synonym 'a outcome = "(error + 'a) \<times> fs \<times> event list"

type_synonym 'a act = "fs \<Rightarrow> 'a outcome"

definition res :: "'a outcome \<Rightarrow> error + 'a" where
  "res r = fst r"

definition fs_of :: "'a outcome \<Rightarrow> fs" where
  "fs_of r = fst (snd r)"

definition evs :: "'a outcome \<Rightarrow> event list" where
  "evs r = snd (snd r)"

definition ret :: "'a \<Rightarrow> 'a act" where
  "ret x fs = (Inr x, fs, [])"

definition throw :: "error \<Rightarrow> 'a act" where
  "throw e fs = (Inl e, fs, [])"

definition emit :: "event \<Rightarrow> unit act" where
  "emit e fs = (Inr (), fs, [e])"

definition and_then :: "'a act \<Rightarrow> ('a \<Rightarrow> 'b act) \<Rightarrow> 'b act" where
  "and_then m f fs =
     (case m fs of
        (Inl e, fs1, t1) \<Rightarrow> (Inl e, fs1, t1)
      | (Inr x, fs1, t1) \<Rightarrow> (case f x fs1 of (r, fs2, t2) \<Rightarrow> (r, fs2, t1 @ t2)))"

definition tryCatch :: "'a act \<Rightarrow> (error \<Rightarrow> 'a act) \<Rightarrow> 'a act" where
  "tryCatch m h fs =
     (case m fs of
        (Inl e, fs1, t1) \<Rightarrow> (case h e fs1 of (r, fs2, t2) \<Rightarrow> (r, fs2, t1 @ t2))
      | (Inr x, fs1, t1) \<Rightarrow> (Inr x, fs1, t1))"

fun steps :: "unit act list \<Rightarrow> unit act" where
  "steps [] = ret ()"
| "steps (a # as) = and_then a (\<lambda>_. steps as)"

fun for_of :: "('a \<Rightarrow> unit act) \<Rightarrow> 'a list \<Rightarrow> unit act" where
  "for_of body [] = ret ()"
| "for_of body (x # xs) = and_then (body x) (\<lambda>_. for_of body xs)"

definition console_log :: "msg \<Rightarrow> unit act" where
  "console_log m = emit (Log m)"

definition console_error :: "msg \<Rightarrow> unit act" where
  "console_error m = emit (LogError m)"

subsection \<open>Paths and files\<close>

text \<open>
  path.join and path.basename on the paths the script builds. The first segment is the
  directory of the script, absolute and normalised: it ends with a separator only when it
  is a root directory, and then path.join adds none. The other segments are the plain,
  non-empty names the script writes out. An empty first segment is skipped, as path.join
  skips it.
\<close>

definition sep :: "env \<Rightarrow> char" where
  "sep env = (if platform env = ''win32'' then CHR 0x5C else CHR ''/'')"

definition is_sep :: "env \<Rightarrow> char \<Rightarrow> bool" where
  "is_sep env c = (c = CHR ''/'' \<or> (platform env = ''win32'' \<and> c = CHR 0x5C))"

fun path_join :: "env \<Rightarrow> string list \<Rightarrow> string" where
  "path_join env [] = ''.''"
| "path_join env [s] = (if s = [] then ''.'' else s)"
| "path_join env (s # t # ts) =
     (if s = [] then path_join env (t # ts)
      else if is_sep env (last s) then s @ path_join env (t # ts)
      else s @ sep env # path_join env (t # ts))"

definition basename :: "env \<Rightarrow> string \<Rightarrow> string" where
  "basename env p = rev (takeWhile (\<lambda>c. \<not> is_sep env c) (rev p))"

definition existsSync :: "fs \<Rightarrow> string \<Rightarrow> bool" where
  "existsSync fs p = (fs p \<noteq> None)"

definition readFileSync :: "env \<Rightarrow> string \<Rightarrow> string act" where
  "readFileSync env p fs =
     (case fs p of
        Some (File c) \<Rightarrow>
          if read_error env p then (Inl (FsError p), fs, []) else (Inr c, fs, [])
      | _ \<Rightarrow> (Inl (FsError p), fs, []))"

definition writeFileSync :: "env \<Rightarrow> string \<Rightarrow> string \<Rightarrow> unit act" where
  "writeFileSync env p c fs =
     (case fs p of
        Some Dir \<Rightarrow> (Inl (FsError p), fs, [])
      | _ \<Rightarrow> if write_error env p then (Inl (FsError p), fs, [])
             else (Inr (), fs(p \<mapsto> File c), [WriteFile p]))"

definition execSync :: "env \<Rightarrow> stdio \<Rightarrow> string \<Rightarrow> string \<Rightarrow> unit act" where
  "execSync env io cmd cwd fs =
     (case shell env cmd cwd fs of
        (ok, fs1) \<Rightarrow> (if ok then Inr () else Inl (ExecError cmd), fs1, [Exec io cmd cwd ok]))"

section \<open>build.js\<close>

definition ROOT :: "env \<Rightarrow> string" where
  "ROOT env = dirname env"

definition SCROLL_CLI :: "env \<Rightarrow> string" where
  "SCROLL_CLI env = path_join env [ROOT env, ''node_modules'', ''scroll-cli'', ''scroll.js'']"

definition SUBFOLDERS :: "string list" where
  "SUBFOLDERS = [''blog'', ''books'', ''concepts'', ''creators'', ''features'', ''lists'', ''pages'']"

definition run :: "env \<Rightarrow> string \<Rightarrow> string \<Rightarrow> unit act" where
  "run env cmd cwd =
     and_then (console_log (Running (basename env cwd) cmd)) (\<lambda>_.
       tryCatch (execSync env Inherit cmd cwd)
         (\<lambda>err. and_then (console_error (CommandFailed cmd)) (\<lambda>_. throw err)))"

definition runQuiet :: "env \<Rightarrow> string \<Rightarrow> string \<Rightarrow> unit act" where
  "runQuiet env cmd cwd =
     and_then (console_log (RunningQuiet (basename env cwd) cmd)) (\<lambda>_.
       tryCatch (execSync env Pipe cmd cwd)
         (\<lambda>err. and_then (console_error (CommandFailed cmd)) (\<lambda>_. throw err)))"

subsection \<open>Step 2: the Windows patch of scroll-cli\<close>

text \<open>
  The two regular expressions of the patch are literal texts with the global flag, and the
  replacement texts hold no dollar sign: replace substitutes every occurrence, scanning
  from the left, and never looks inside what it has inserted.
\<close>

fun replaceAll :: "string \<Rightarrow> string \<Rightarrow> string \<Rightarrow> string" where
  "replaceAll pat rep [] = []"
| "replaceAll pat rep (c # cs) =
     (if pat \<noteq> [] \<and> prefix pat (c # cs)
      then rep @ replaceAll pat rep (drop (length pat - 1) cs)
      else c # replaceAll pat rep cs)"

fun includes_str :: "string \<Rightarrow> string \<Rightarrow> bool" where
  "includes_str pat [] = (pat = [])"
| "includes_str pat (c # cs) = (prefix pat (c # cs) \<or> includes_str pat cs)"

definition patched :: "string \<Rightarrow> string" where
  "patched content =
     replaceAll ''Utils.posix.basename(this.filePath)''
       (''require('' @ [CHR 0x22] @ ''path'' @ [CHR 0x22] @ '').basename(this.filePath)'')
       (replaceAll ''Utils.posix.dirname(this.filePath)''
          (''require('' @ [CHR 0x22] @ ''path'' @ [CHR 0x22] @ '').dirname(this.filePath)'')
          content)"

definition rootParsersPath :: "env \<Rightarrow> string" where
  "rootParsersPath env =
     path_join env [ROOT env, ''node_modules'', ''scroll-cli'', ''parsers'', ''root.parsers'']"

definition nestedPath :: "env \<Rightarrow> string" where
  "nestedPath env =
     path_join env [ROOT env, ''node_modules'', ''scroll-cli'', ''node_modules'', ''scroll-cli'',
       ''parsers'', ''root.parsers'']"

definition patchNested :: "env \<Rightarrow> unit act" where
  "patchNested env fs =
     (if existsSync fs (nestedPath env)
      then and_then (readFileSync env (nestedPath env)) (\<lambda>nestedContent.
             steps [writeFileSync env (nestedPath env) (patched nestedContent),
                    console_log NestedPatched]) fs
      else ret () fs)"

definition patchScrollCliIfNeeded :: "env \<Rightarrow> unit act" where
  "patchScrollCliIfNeeded env fs =
     (if platform env \<noteq> ''win32'' then console_log NotOnWindows fs
      else if \<not> existsSync fs (rootParsersPath env) then console_log ParsersNotFound fs
      else and_then (readFileSync env (rootParsersPath env)) (\<lambda>content.
             if includes_str ''Utils.posix.dirname'' content
             then steps [console_log Patching,
                         writeFileSync env (rootParsersPath env) (patched content),
                         console_log Patched,
                         patchNested env]
             else console_log AlreadyPatched) fs)"

subsection \<open>Steps 1 to 5\<close>

definition buildCmd :: "env \<Rightarrow> string" where
  "buildCmd env = ''node '' @ [CHR 0x22] @ SCROLL_CLI env @ [CHR 0x22] @ '' build''"

definition writeAllFeaturePages :: "env \<Rightarrow> unit act" where
  "writeAllFeaturePages env fs =
     (case computer env fs of
        (ok, fs1) \<Rightarrow> (if ok then Inr () else Inl BridgeError, fs1, [FeaturePages ok]))"

definition folderPath :: "env \<Rightarrow> string \<Rightarrow> string" where
  "folderPath env dir = path_join env [ROOT env, dir]"

definition subfolderStep :: "env \<Rightarrow> string \<Rightarrow> unit act" where
  "subfolderStep env dir fs =
     (if existsSync fs (folderPath env dir)
      then and_then (console_log (Building dir)) (\<lambda>_.
             tryCatch
               (steps [runQuiet env (buildCmd env) (folderPath env dir),
                       console_log (Built dir)])
               (\<lambda>err. console_error (HadErrors dir))) fs
      else ret () fs)"

definition build :: "env \<Rightarrow> unit act" where
  "build env =
     steps [console_log Banner,
            console_log Rule,
            console_log Step1,
            run env ''node cli.js buildParsersFile'' (ROOT env),
            console_log Step2,
            patchScrollCliIfNeeded env,
            console_log Step3,
            run env (buildCmd env) (ROOT env),
            console_log Step4,
            writeAllFeaturePages env,
            console_log FeaturePagesGenerated,
            console_log Step5,
            for_of (subfolderStep env) SUBFOLDERS,
            console_log RuleNL,
            console_log BuildComplete]"

subsection \<open>The maintenance page and the server\<close>

fun template :: "string list \<Rightarrow> string" where
  "template [] = []"
| "template [l] = l"
| "template (l # m # ls) = l @ CHR 0x0A # template (m # ls)"

definition dq :: "string \<Rightarrow> string" where
  "dq s = CHR 0x22 # s @ [CHR 0x22]"

definition maintenanceHtml :: string where
  "maintenanceHtml = template
     [''<!DOCTYPE html>'',
      ''<html lang='' @ dq ''en'' @ ''>'',
      ''<head>'',
      ''  <meta charset='' @ dq ''UTF-8'' @ ''>'',
      ''  <meta name='' @ dq ''viewport'' @ '' content=''
         @ dq ''width=device-width, initial-scale=1.0'' @ ''>'',
      ''  <title>PLDB - Building...</title>'',
      ''  <style>'',
      ''    body {'',
      ''      font-family: -apple-system, BlinkMacSystemFont, '' @ dq ''Segoe UI''
         @ '', Roboto, sans-serif;'',
      ''      display: flex;'',
      ''      justify-content: center;'',
      ''      align-items: center;'',
      ''      min-height: 100vh;'',
      ''      margin: 0;'',
      ''      background-color: #f5f5f5;'',
      ''      color: #333;'',
      ''    }'',
      ''    .container { text-align: center; padding: 2rem; }'',
      ''    h1 { font-size: 2rem; margin-bottom: 0.5rem; }'',
      ''    p { font-size: 1.2rem; color: #666; }'',
      ''    .spinner {'',
      ''      margin: 2rem auto;'',
      ''      width: 40px;'',
      ''      height: 40px;'',
      ''      border: 4px solid #ddd;'',
      ''      border-top-color: #333;'',
      ''      border-radius: 50%;'',
      ''      animation: spin 1s linear infinite;'',
      ''    }'',
      ''    @keyframes spin { to { transform: rotate(360deg); } }'',
      ''  </style>'',
      ''  <meta http-equiv='' @ dq ''refresh'' @ '' content='' @ dq ''10'' @ ''>'',
      ''</head>'',
      ''<body>'',
      ''  <div class='' @ dq ''container'' @ ''>'',
      ''    <h1>PLDB</h1>'',
      ''    <div class='' @ dq ''spinner'' @ ''></div>'',
      ''    <p>Site is rebuilding. This page will refresh automatically.</p>'',
      ''  </div>'',
      ''</body>'',
      ''</html>'']"

definition indexPath :: "env \<Rightarrow> string" where
  "indexPath env = path_join env [ROOT env, ''index.html'']"

definition writeMaintenancePage :: "env \<Rightarrow> unit act" where
  "writeMaintenancePage env =
     steps [writeFileSync env (indexPath env) maintenanceHtml,
            console_log WroteMaintenance]"

text \<open>
  A child process as the script sees it: a handle that remembers whether kill was called
  on it, and whether it was obtained with the shell option. With that option the handle
  is the handle of a shell, and the program named in the command is a process the shell
  starts: kill on the handle ends the shell and not the processes the shell has started
  (so Node documents subprocess.kill for the shell option). spawn returns the handle at
  once; the script attaches no listener to it and never waits for the server to listen.
\<close>

datatype child = ChildProcess (via_shell: bool) (killed: bool)

definition spawn :: "string \<Rightarrow> string list \<Rightarrow> string \<Rightarrow> stdio \<Rightarrow> bool \<Rightarrow> child act" where
  "spawn cmd args cwd io sh fs = (Inr (ChildProcess sh False), fs, [Spawn cmd args cwd io sh])"

definition startBackgroundServer :: "env \<Rightarrow> child act" where
  "startBackgroundServer env =
     and_then (console_log StartingServer) (\<lambda>_.
       spawn ''npx'' [''serve'', ''.''] (ROOT env) Ignore True)"

subsection \<open>Main\<close>

text \<open>
  The process of the script and what it has started: the file system, the effects so far,
  the variable serverProcess, whether the server program behind that handle is running,
  whether the handler for SIGINT is registered, and the exit status once the process of
  the script has ended.
\<close>

record proc =
  disk :: fs
  trace :: "event list"
  serverProcess :: "child option"
  server_up :: bool
  sigint :: bool
  exited :: "nat option"

definition say :: "event list \<Rightarrow> proc \<Rightarrow> proc" where
  "say es p = p\<lparr>trace := trace p @ es\<rparr>"

definition kill_server :: "proc \<Rightarrow> proc" where
  "kill_server p =
     (case serverProcess p of
        Some c \<Rightarrow>
          (say [Kill] p)
            \<lparr>serverProcess := Some (ChildProcess (via_shell c) True),
             server_up := (if via_shell c then server_up p else False)\<rparr>
      | None \<Rightarrow> p)"

definition process_exit :: "nat \<Rightarrow> proc \<Rightarrow> proc" where
  "process_exit code p = (say [Exit code] p)\<lparr>exited := Some code\<rparr>"

definition sigintHandler :: "proc \<Rightarrow> proc" where
  "sigintHandler p = process_exit 0 (kill_server (say [Log ShuttingDown] p))"

definition thenCallback :: "bool \<Rightarrow> proc \<Rightarrow> proc" where
  "thenCallback shouldServe p =
     (if shouldServe
      then (say [Log ServerRunning, Log NowServing, Log PressCtrlC, OnSIGINT] p)\<lparr>sigint := True\<rparr>
      else say [Log ToStartServer, Log OrNodeBuildServe] p)"

definition catchCallback :: "error \<Rightarrow> proc \<Rightarrow> proc" where
  "catchCallback err p = process_exit 1 (kill_server (say [LogError (BuildFailed err)] p))"

text \<open>
  When the callbacks are done, the process ends by itself with status 0 as soon as nothing
  keeps it alive. Here that can only be the handle of the spawned child, which the script
  never unrefs: the child lives until it is killed or the server it runs has ended. So
  \<open>exited = None\<close> says that the process is still alive, waiting on that child.
\<close>

definition child_alive :: "proc \<Rightarrow> bool" where
  "child_alive p =
     (case serverProcess p of None \<Rightarrow> False | Some c \<Rightarrow> \<not> killed c \<and> server_up p)"

definition drain :: "proc \<Rightarrow> proc" where
  "drain p = (if exited p = None \<and> \<not> child_alive p then process_exit 0 p else p)"

text \<open>
  What can still happen to a process that is alive: the operator interrupts it, or the
  server ends. An interrupt runs the handler if one is registered; with none, Node ends
  the process with status 128 + 2. When the server ends, so does the child, and the
  process ends by itself.
\<close>

datatype ending = Interrupt | ServerEnds

fun deliver :: "ending \<Rightarrow> proc \<Rightarrow> proc" where
  "deliver Interrupt p =
     (if exited p \<noteq> None then p
      else if sigint p then sigintHandler p
      else process_exit 130 p)"
| "deliver ServerEnds p =
     (if exited p \<noteq> None then p else drain (p\<lparr>server_up := False\<rparr>))"

text \<open>
  The lines of the module itself. An exception thrown by the first of them (the write of
  the maintenance page) is caught by nobody, and Node ends the process with status 1.
  The function build is declared async but awaits nothing: its body runs to its end, or to
  its first exception, inside the call, and then the callback for the fulfilled or for the
  rejected promise runs.
\<close>

definition shouldServe :: "string list \<Rightarrow> bool" where
  "shouldServe args = (''--serve'' \<in> set args \<or> ''-s'' \<in> set args)"

definition prepare :: "env \<Rightarrow> string list \<Rightarrow> child option act" where
  "prepare env args =
     (if shouldServe args
      then and_then (console_log SettingUp) (\<lambda>_.
           and_then (writeMaintenancePage env) (\<lambda>_.
           and_then (startBackgroundServer env) (\<lambda>c. ret (Some c))))
      else ret None)"

text \<open>
  The server behind the handle: it is running, after the build, when a child was spawned
  and the server program keeps running by itself with the port as it found it.
\<close>

definition started :: "env \<Rightarrow> child option \<Rightarrow> bool" where
  "started env sp = (sp \<noteq> None \<and> server_stays env (port_in_use env))"

definition main :: "env \<Rightarrow> string list \<Rightarrow> fs \<Rightarrow> proc" where
  "main env args fs =
     (case prepare env args fs of
        (Inl e, fs1, t1) \<Rightarrow>
          \<lparr>disk = fs1, trace = t1 @ [Uncaught e, Exit 1], serverProcess = None,
           server_up = False, sigint = False, exited = Some 1\<rparr>
      | (Inr sp, fs1, t1) \<Rightarrow>
          (case build env fs1 of
             (Inr _, fs2, t2) \<Rightarrow>
               drain (thenCallback (shouldServe args)
                 \<lparr>disk = fs2, trace = t1 @ t2, serverProcess = sp,
                  server_up = started env sp, sigint = False, exited = None\<rparr>)
           | (Inl err, fs2, t2) \<Rightarrow>
               catchCallback err
                 \<lparr>disk = fs2, trace = t1 @ t2, serverProcess = sp,
                  server_up = started env sp, sigint = False, exited = None\<rparr>))"

section \<open>Observations on a run\<close>

subsection \<open>What a trace shows\<close>

text \<open>
  The working directories of the commands a run executed, in order: the root folder for
  Steps 1 and 3, a subfolder for each generator run of Step 5.
\<close>

fun cwd_of :: "event \<Rightarrow> string list" where
  "cwd_of (Exec io cmd cwd ok) = [cwd]"
| "cwd_of _ = []"

definition invoked :: "event list \<Rightarrow> string list" where
  "invoked t = concat (map cwd_of t)"

text \<open>
  The directories of the subfolder generator runs that failed (runQuiet is the only caller
  of execSync with piped output), and the folders named by the warning lines of Step 5.
\<close>

fun failed_of :: "event \<Rightarrow> string list" where
  "failed_of (Exec Pipe cmd cwd False) = [cwd]"
| "failed_of _ = []"

definition failed :: "event list \<Rightarrow> string list" where
  "failed t = concat (map failed_of t)"

fun warned_of :: "event \<Rightarrow> string list" where
  "warned_of (LogError (HadErrors dir)) = [dir]"
| "warned_of _ = []"

definition warned :: "event list \<Rightarrow> string list" where
  "warned t = concat (map warned_of t)"

text \<open>
  The unit names a console line carries, and the closing part of the output: what is
  printed from the rule that follows the loop of Step 5 on.
\<close>

fun msg_names :: "msg \<Rightarrow> string list" where
  "msg_names (Running b c) = [b]"
| "msg_names (RunningQuiet b c) = [b]"
| "msg_names (Building dir) = [dir]"
| "msg_names (Built dir) = [dir]"
| "msg_names (HadErrors dir) = [dir]"
| "msg_names _ = []"

fun names :: "event \<Rightarrow> string list" where
  "names (Log m) = msg_names m"
| "names (LogError m) = msg_names m"
| "names _ = []"

definition summary :: "event list \<Rightarrow> event list" where
  "summary t = dropWhile (\<lambda>e. e \<noteq> Log RuleNL) t"

fun is_Spawn :: "event \<Rightarrow> bool" where
  "is_Spawn (Spawn cmd args cwd io sh) = True"
| "is_Spawn _ = False"

text \<open>
  A failed generator run of a subfolder is reported at once when the two effects right
  after it are the failure line of its command and the warning that names its folder; a
  trace is prompt when every failed run in it is.
\<close>

fun failed_run :: "event \<Rightarrow> (string \<times> string) option" where
  "failed_run (Exec Pipe cmd cwd False) = Some (cmd, cwd)"
| "failed_run _ = None"

definition follows :: "env \<Rightarrow> string \<times> string \<Rightarrow> event list \<Rightarrow> bool" where
  "follows env r t =
     (\<exists>d u. t = LogError (CommandFailed (fst r)) # LogError (HadErrors d) # u \<and>
            snd r = folderPath env d)"

fun prompt :: "env \<Rightarrow> event list \<Rightarrow> bool" where
  "prompt env [] = True"
| "prompt env (e # t) =
     ((case failed_run e of None \<Rightarrow> True | Some r \<Rightarrow> follows env r t) \<and> prompt env t)"

subsection \<open>What the surroundings may do\<close>

text \<open>
  An observation of the file system that no external tool changes: neither a command run
  by execSync nor the bridging step. With the existence of a path as the observation, it
  says that the tools neither create nor remove that path; with the entry at a path, that
  they leave the file as it is.
\<close>

definition tools_keep :: "env \<Rightarrow> (fs \<Rightarrow> 'x) \<Rightarrow> bool" where
  "tools_keep env obs =
     ((\<forall>cmd cwd fs. obs (snd (shell env cmd cwd fs)) = obs fs) \<and>
      (\<forall>fs. obs (snd (computer env fs)) = obs fs))"

text \<open>
  fs.writeFileSync on a path succeeds unless the path is a directory or refuses the write.
  The run gets past its first lines unless --serve is given and index.html in the root
  cannot be written.
\<close>

definition writable :: "env \<Rightarrow> fs \<Rightarrow> string \<Rightarrow> bool" where
  "writable env fs p = (fs p \<noteq> Some Dir \<and> \<not> write_error env p)"

definition can_start :: "env \<Rightarrow> string list \<Rightarrow> fs \<Rightarrow> bool" where
  "can_start env args fs = (shouldServe args \<longrightarrow> writable env fs (indexPath env))"

subsection \<open>The parts of a run\<close>

text \<open>
  An action emits only effects of a given kind; an action keeps an observation of the
  file system. The build is Steps 1 to 4, the line of Step 5, the loop, and two closing
  lines; \<open>prelude_event\<close> and \<open>loop_event\<close> list the effects Steps 1 to 4 and the
  loop can have. Around the build, the run has the effects of its first lines (under
  --serve) and of the callback that follows the build, with the exit of a process that
  nothing keeps alive.
\<close>

definition emits :: "(event \<Rightarrow> bool) \<Rightarrow> 'a act \<Rightarrow> bool" where
  "emits P a = (\<forall>fs. \<forall>e \<in> set (evs (a fs)). P e)"

definition keeps :: "(fs \<Rightarrow> 'x) \<Rightarrow> 'a act \<Rightarrow> bool" where
  "keeps obs a = (\<forall>fs. obs (fs_of (a fs)) = obs fs)"

definition prelude :: "env \<Rightarrow> unit act" where
  "prelude env =
     steps [console_log Banner,
            console_log Rule,
            console_log Step1,
            run env ''node cli.js buildParsersFile'' (ROOT env),
            console_log Step2,
            patchScrollCliIfNeeded env,
            console_log Step3,
            run env (buildCmd env) (ROOT env),
            console_log Step4,
            writeAllFeaturePages env,
            console_log FeaturePagesGenerated]"

definition loop :: "env \<Rightarrow> unit act" where
  "loop env = for_of (subfolderStep env) SUBFOLDERS"

fun prelude_msg :: "msg \<Rightarrow> bool" where
  "prelude_msg (Running b c) = True"
| "prelude_msg Banner = True"
| "prelude_msg Rule = True"
| "prelude_msg Step1 = True"
| "prelude_msg Step2 = True"
| "prelude_msg Step3 = True"
| "prelude_msg Step4 = True"
| "prelude_msg FeaturePagesGenerated = True"
| "prelude_msg NotOnWindows = True"
| "prelude_msg ParsersNotFound = True"
| "prelude_msg Patching = True"
| "prelude_msg Patched = True"
| "prelude_msg NestedPatched = True"
| "prelude_msg AlreadyPatched = True"
| "prelude_msg _ = False"

fun prelude_event :: "env \<Rightarrow> event \<Rightarrow> bool" where
  "prelude_event env (Log m) = prelude_msg m"
| "prelude_event env (LogError (CommandFailed c)) = True"
| "prelude_event env (Exec io cmd cwd ok) = (io = Inherit \<and> cwd = ROOT env)"
| "prelude_event env (FeaturePages ok) = True"
| "prelude_event env (WriteFile p) = (p = rootParsersPath env \<or> p = nestedPath env)"
| "prelude_event env _ = False"

fun loop_event :: "env \<Rightarrow> event \<Rightarrow> bool" where
  "loop_event env (Log (Building d)) = (d \<in> set SUBFOLDERS)"
| "loop_event env (Log (Built d)) = (d \<in> set SUBFOLDERS)"
| "loop_event env (Log (RunningQuiet b c)) = True"
| "loop_event env (LogError (CommandFailed c)) = True"
| "loop_event env (LogError (HadErrors d)) = (d \<in> set SUBFOLDERS)"
| "loop_event env (Exec io cmd cwd ok) = (io = Pipe \<and> cwd \<in> folderPath env ` set SUBFOLDERS)"
| "loop_event env _ = False"

definition setup_events :: "env \<Rightarrow> event list" where
  "setup_events env =
     [Log SettingUp, WriteFile (indexPath env), Log WroteMaintenance, Log StartingServer,
      Spawn ''npx'' [''serve'', ''.''] (ROOT env) Ignore True]"

definition start_fs :: "env \<Rightarrow> string list \<Rightarrow> fs \<Rightarrow> fs" where
  "start_fs env args fs =
     (if shouldServe args then fs(indexPath env \<mapsto> File maintenanceHtml) else fs)"

definition start_events :: "env \<Rightarrow> string list \<Rightarrow> event list" where
  "start_events env args = (if shouldServe args then setup_events env else [])"

definition closing_events :: "env \<Rightarrow> string list \<Rightarrow> event list" where
  "closing_events env args =
     (if shouldServe args
      then [Log ServerRunning, Log NowServing, Log PressCtrlC, OnSIGINT]
           @ (if server_stays env (port_in_use env) then [] else [Exit 0])
      else [Log ToStartServer, Log OrNodeBuildServe, Exit 0])"

text \<open>What path.join puts in front of a name joined to the directory of the script.\<close>

definition root_prefix :: "env \<Rightarrow> string" where
  "root_prefix env =
     (if ROOT env = [] then []
      else if is_sep env (last (ROOT env)) then ROOT env
      else ROOT env @ [sep env])"

definition abort_events :: "bool \<Rightarrow> error \<Rightarrow> event list" where
  "abort_events serve err =
     LogError (BuildFailed err) # (if serve then [Kill] else []) @ [Exit 1]"

subsection \<open>Sample worlds\<close>

text \<open>
  A Linux machine with the script in /pldb on which every tool succeeds and changes
  nothing, and whose server keeps running on a free port and gives up on a bound one; the
  same with a failing root generator, with a failing generator in books, and with port
  3000 already bound; a site with all seven subfolders and an old index.html, and one with
  three subfolders only.
\<close>

definition linux_env :: env where
  "linux_env =
     \<lparr>platform = ''linux'', dirname = ''/pldb'',
      shell = (\<lambda>cmd cwd fs. (True, fs)),
      computer = (\<lambda>fs. (True, fs)),
      read_error = (\<lambda>p. False),
      write_error = (\<lambda>p. False),
      port_in_use = False,
      server_stays = (\<lambda>taken. \<not> taken)\<rparr>"

definition root_fails_env :: env where
  "root_fails_env =
     linux_env\<lparr>shell := (\<lambda>cmd cwd fs. (cmd = ''node cli.js buildParsersFile'', fs))\<rparr>"

definition books_fails_env :: env where
  "books_fails_env = linux_env\<lparr>shell := (\<lambda>cmd cwd fs. (cwd \<noteq> ''/pldb/books'', fs))\<rparr>"


definition site_fs :: fs where
  "site_fs =
     [''/pldb/blog'' \<mapsto> Dir, ''/pldb/books'' \<mapsto> Dir, ''/pldb/concepts'' \<mapsto> Dir,
      ''/pldb/creators'' \<mapsto> Dir, ''/pldb/features'' \<mapsto> Dir, ''/pldb/lists'' \<mapsto> Dir,
      ''/pldb/pages'' \<mapsto> Dir, ''/pldb/index.html'' \<mapsto> File ''<html>old</html>'']"

definition abc_fs :: fs where
  "abc_fs = [''/pldb/blog'' \<mapsto> Dir, ''/pldb/books'' \<mapsto> Dir, ''/pldb/concepts'' \<mapsto> Dir]"

section \<open>Laws of the effect combinators\<close>

lemma res_ret [simp]: "res (ret x fs) = Inr x"
  and fs_of_ret [simp]: "fs_of (ret x fs) = fs"
  and evs_ret [simp]: "evs (ret x fs) = []"
  by (simp_all add: ret_def res_def fs_of_def evs_def)

lemma res_throw [simp]: "res (throw e fs) = Inl e"
  and fs_of_throw [simp]: "fs_of (throw e fs) = fs"
  and evs_throw [simp]: "evs (throw e fs) = []"
  by (simp_all add: throw_def res_def fs_of_def evs_def)

lemma res_emit [simp]: "res (emit e fs) = Inr ()"
  and fs_of_emit [simp]: "fs_of (emit e fs) = fs"
  and evs_emit [simp]: "evs (emit e fs) = [e]"
  by (simp_all add: emit_def res_def fs_of_def evs_def)

lemma res_log [simp]: "res (console_log m fs) = Inr ()"
  and fs_of_log [simp]: "fs_of (console_log m fs) = fs"
  and evs_log [simp]: "evs (console_log m fs) = [Log m]"
  by (simp_all add: console_log_def)

lemma res_error [simp]: "res (console_error m fs) = Inr ()"
  and fs_of_error [simp]: "fs_of (console_error m fs) = fs"
  and evs_error [simp]: "evs (console_error m fs) = [LogError m]"
  by (simp_all add: console_error_def)

lemma res_and_then:
  "res (and_then m f fs) =
     (case res (m fs) of Inl e \<Rightarrow> Inl e | Inr x \<Rightarrow> res (f x (fs_of (m fs))))"
  by (simp add: and_then_def res_def fs_of_def split: prod.splits sum.splits)

lemma fs_of_and_then:
  "fs_of (and_then m f fs) =
     (case res (m fs) of Inl e \<Rightarrow> fs_of (m fs) | Inr x \<Rightarrow> fs_of (f x (fs_of (m fs))))"
  by (simp add: and_then_def res_def fs_of_def split: prod.splits sum.splits)

lemma evs_and_then:
  "evs (and_then m f fs) =
     (case res (m fs) of Inl e \<Rightarrow> evs (m fs)
      | Inr x \<Rightarrow> evs (m fs) @ evs (f x (fs_of (m fs))))"
  by (simp add: and_then_def res_def fs_of_def evs_def split: prod.splits sum.splits)

lemma res_tryCatch:
  "res (tryCatch m h fs) =
     (case res (m fs) of Inl e \<Rightarrow> res (h e (fs_of (m fs))) | Inr x \<Rightarrow> Inr x)"
  by (simp add: tryCatch_def res_def fs_of_def split: prod.splits sum.splits)

lemma fs_of_tryCatch:
  "fs_of (tryCatch m h fs) =
     (case res (m fs) of Inl e \<Rightarrow> fs_of (h e (fs_of (m fs))) | Inr x \<Rightarrow> fs_of (m fs))"
  by (simp add: tryCatch_def res_def fs_of_def split: prod.splits sum.splits)

lemma evs_tryCatch:
  "evs (tryCatch m h fs) =
     (case res (m fs) of Inl e \<Rightarrow> evs (m fs) @ evs (h e (fs_of (m fs)))
      | Inr x \<Rightarrow> evs (m fs))"
  by (simp add: tryCatch_def res_def fs_of_def evs_def split: prod.splits sum.splits)

lemma outcome_eqI:
  "res a = res b \<Longrightarrow> fs_of a = fs_of b \<Longrightarrow> evs a = evs b \<Longrightarrow> a = b"
  by (simp add: res_def fs_of_def evs_def prod_eq_iff)

lemma and_then_assoc:
  "and_then (and_then m f) g = and_then m (\<lambda>x. and_then (f x) g)"
  by (rule ext, rule outcome_eqI)
     (simp_all add: res_and_then fs_of_and_then evs_and_then split: sum.splits)

lemma and_then_ret: "and_then (ret x) f = f x"
  by (rule ext, rule outcome_eqI) (simp_all add: res_and_then fs_of_and_then evs_and_then)

lemma and_then_ret_right: "and_then m (\<lambda>_. ret ()) = m"
  by (rule ext, rule outcome_eqI)
     (simp_all add: res_and_then fs_of_and_then evs_and_then split: sum.splits)

lemma steps_append: "steps (as @ bs) = and_then (steps as) (\<lambda>_. steps bs)"
  by (induction as) (simp_all add: and_then_ret and_then_assoc)

lemma build_split:
  "build env =
     and_then (prelude env) (\<lambda>_.
     and_then (console_log Step5) (\<lambda>_.
     and_then (for_of (subfolderStep env) SUBFOLDERS) (\<lambda>_.
       steps [console_log RuleNL, console_log BuildComplete])))"
  by (simp add: build_def prelude_def and_then_assoc and_then_ret)

lemma for_of_append:
  "for_of body (xs @ ys) = and_then (for_of body xs) (\<lambda>_. for_of body ys)"
  by (induction xs) (simp_all add: and_then_ret and_then_assoc)

lemma invoked_simps [simp]:
  "invoked [] = []"
  "invoked (e # t) = cwd_of e @ invoked t"
  "invoked (t @ u) = invoked t @ invoked u"
  by (simp_all add: invoked_def)

text \<open>Rules for \<open>emits\<close>.\<close>

lemma emitsD: "emits P a \<Longrightarrow> e \<in> set (evs (a fs)) \<Longrightarrow> P e"
  by (simp add: emits_def)

lemma emits_ret: "emits P (ret x)"
  and emits_throw: "emits P (throw err)"
  by (simp_all add: emits_def)

lemma emits_log: "P (Log m) \<Longrightarrow> emits P (console_log m)"
  and emits_error: "P (LogError m) \<Longrightarrow> emits P (console_error m)"
  by (simp_all add: emits_def)

lemma emits_and_then:
  "emits P m \<Longrightarrow> (\<And>x. emits P (f x)) \<Longrightarrow> emits P (and_then m f)"
  by (auto simp: emits_def evs_and_then split: sum.splits)

lemma emits_tryCatch:
  "emits P m \<Longrightarrow> (\<And>x. emits P (h x)) \<Longrightarrow> emits P (tryCatch m h)"
  by (auto simp: emits_def evs_tryCatch split: sum.splits)

lemma emits_steps: "(\<And>a. a \<in> set as \<Longrightarrow> emits P a) \<Longrightarrow> emits P (steps as)"
  by (induction as) (simp_all add: emits_ret emits_and_then)

lemma emits_for_of: "(\<And>x. x \<in> set xs \<Longrightarrow> emits P (body x)) \<Longrightarrow> emits P (for_of body xs)"
  by (induction xs) (simp_all add: emits_ret emits_and_then)

lemma emits_if:
  "emits P m \<Longrightarrow> emits P n \<Longrightarrow> emits P (\<lambda>fs. if c fs then m fs else n fs)"
  by (simp add: emits_def)

text \<open>Rules for \<open>keeps\<close>.\<close>

lemma keepsD: "keeps obs a \<Longrightarrow> obs (fs_of (a fs)) = obs fs"
  by (simp add: keeps_def)

lemma keeps_ret: "keeps obs (ret x)"
  and keeps_throw: "keeps obs (throw err)"
  and keeps_log: "keeps obs (console_log m)"
  and keeps_error: "keeps obs (console_error m)"
  by (simp_all add: keeps_def)

lemma keeps_and_then:
  "keeps obs m \<Longrightarrow> (\<And>x. keeps obs (f x)) \<Longrightarrow> keeps obs (and_then m f)"
  by (auto simp: keeps_def fs_of_and_then split: sum.splits)

lemma keeps_tryCatch:
  "keeps obs m \<Longrightarrow> (\<And>x. keeps obs (h x)) \<Longrightarrow> keeps obs (tryCatch m h)"
  by (auto simp: keeps_def fs_of_tryCatch split: sum.splits)

lemma keeps_steps: "(\<And>a. a \<in> set as \<Longrightarrow> keeps obs a) \<Longrightarrow> keeps obs (steps as)"
  by (induction as) (simp_all add: keeps_ret keeps_and_then)

lemma keeps_for_of: "(\<And>x. keeps obs (body x)) \<Longrightarrow> keeps obs (for_of body xs)"
  by (induction xs) (simp_all add: keeps_ret keeps_and_then)

lemma keeps_if:
  "keeps obs m \<Longrightarrow> keeps obs n \<Longrightarrow> keeps obs (\<lambda>fs. if c fs then m fs else n fs)"
  by (simp add: keeps_def)

text \<open>External commands.\<close>

lemma res_execSync:
  "res (execSync env io cmd cwd fs) =
     (if fst (shell env cmd cwd fs) then Inr () else Inl (ExecError cmd))"
  and fs_of_execSync: "fs_of (execSync env io cmd cwd fs) = snd (shell env cmd cwd fs)"
  and evs_execSync:
  "evs (execSync env io cmd cwd fs) = [Exec io cmd cwd (fst (shell env cmd cwd fs))]"
  by (simp_all add: execSync_def res_def fs_of_def evs_def split: prod.splits)

lemma res_run:
  "res (run env cmd cwd fs) =
     (if fst (shell env cmd cwd fs) then Inr () else Inl (ExecError cmd))"
  and fs_of_run: "fs_of (run env cmd cwd fs) = snd (shell env cmd cwd fs)"
  and evs_run:
  "evs (run env cmd cwd fs) =
     [Log (Running (basename env cwd) cmd), Exec Inherit cmd cwd (fst (shell env cmd cwd fs))]
     @ (if fst (shell env cmd cwd fs) then [] else [LogError (CommandFailed cmd)])"
  by (simp_all add: run_def res_and_then fs_of_and_then evs_and_then res_tryCatch
      fs_of_tryCatch evs_tryCatch res_execSync fs_of_execSync evs_execSync)

lemma res_runQuiet:
  "res (runQuiet env cmd cwd fs) =
     (if fst (shell env cmd cwd fs) then Inr () else Inl (ExecError cmd))"
  and fs_of_runQuiet: "fs_of (runQuiet env cmd cwd fs) = snd (shell env cmd cwd fs)"
  and evs_runQuiet:
  "evs (runQuiet env cmd cwd fs) =
     [Log (RunningQuiet (basename env cwd) cmd),
      Exec Pipe cmd cwd (fst (shell env cmd cwd fs))]
     @ (if fst (shell env cmd cwd fs) then [] else [LogError (CommandFailed cmd)])"
  by (simp_all add: runQuiet_def res_and_then fs_of_and_then evs_and_then res_tryCatch
      fs_of_tryCatch evs_tryCatch res_execSync fs_of_execSync evs_execSync)

lemma res_writeAllFeaturePages:
  "res (writeAllFeaturePages env fs) = (if fst (computer env fs) then Inr () else Inl BridgeError)"
  and fs_of_writeAllFeaturePages: "fs_of (writeAllFeaturePages env fs) = snd (computer env fs)"
  and evs_writeAllFeaturePages:
  "evs (writeAllFeaturePages env fs) = [FeaturePages (fst (computer env fs))]"
  by (simp_all add: writeAllFeaturePages_def res_def fs_of_def evs_def split: prod.splits)

text \<open>One iteration of the loop of Step 5.\<close>

lemma res_subfolderStep: "res (subfolderStep env dir fs) = Inr ()"
  by (simp add: subfolderStep_def res_tryCatch res_and_then res_runQuiet split: sum.splits)

lemma fs_of_subfolderStep:
  "fs_of (subfolderStep env dir fs) =
     (if existsSync fs (folderPath env dir)
      then snd (shell env (buildCmd env) (folderPath env dir) fs) else fs)"
  by (simp add: subfolderStep_def fs_of_tryCatch res_and_then fs_of_and_then res_runQuiet
      fs_of_runQuiet split: sum.splits)

lemma evs_subfolderStep:
  "evs (subfolderStep env dir fs) =
     (if existsSync fs (folderPath env dir)
      then [Log (Building dir),
            Log (RunningQuiet (basename env (folderPath env dir)) (buildCmd env)),
            Exec Pipe (buildCmd env) (folderPath env dir)
              (fst (shell env (buildCmd env) (folderPath env dir) fs))]
           @ (if fst (shell env (buildCmd env) (folderPath env dir) fs)
              then [Log (Built dir)]
              else [LogError (CommandFailed (buildCmd env)), LogError (HadErrors dir)])
      else [])"
  by (simp add: subfolderStep_def evs_tryCatch res_and_then fs_of_and_then evs_and_then
      res_runQuiet fs_of_runQuiet evs_runQuiet split: sum.splits)

lemma res_loop: "res (for_of (subfolderStep env) ds fs) = Inr ()"
  by (induction ds arbitrary: fs) (simp_all add: res_and_then res_subfolderStep)

lemma keeps_subfolderStep: "tools_keep env obs \<Longrightarrow> keeps obs (subfolderStep env dir)"
  by (simp add: keeps_def fs_of_subfolderStep tools_keep_def)

lemma keeps_loop: "tools_keep env obs \<Longrightarrow> keeps obs (for_of (subfolderStep env) ds)"
  by (simp add: keeps_for_of keeps_subfolderStep)

lemma invoked_subfolderStep:
  "invoked (evs (subfolderStep env dir fs)) =
     (if existsSync fs (folderPath env dir) then [folderPath env dir] else [])"
  by (simp add: evs_subfolderStep)

lemma invoked_loop_subset:
  "set (invoked (evs (for_of (subfolderStep env) ds fs))) \<subseteq> folderPath env ` set ds"
proof (induction ds arbitrary: fs)
  case Nil
  show ?case by simp
next
  case (Cons d ds)
  have "set (invoked (evs (subfolderStep env d fs))) \<subseteq> {folderPath env d}"
    by (auto simp: invoked_subfolderStep)
  with Cons.IH [of "fs_of (subfolderStep env d fs)"] show ?case
    by (auto simp: evs_and_then res_subfolderStep)
qed

lemma invoked_loop:
  assumes "\<And>d. d \<in> set ds \<Longrightarrow> tools_keep env (\<lambda>fs. existsSync fs (folderPath env d))"
  shows "invoked (evs (for_of (subfolderStep env) ds fs)) =
           map (folderPath env) (filter (\<lambda>d. existsSync fs (folderPath env d)) ds)"
  using assms
proof (induction ds arbitrary: fs)
  case Nil
  show ?case by simp
next
  case (Cons d ds)
  let ?fs1 = "fs_of (subfolderStep env d fs)"
  have same: "existsSync ?fs1 (folderPath env x) = existsSync fs (folderPath env x)"
    if "x \<in> set ds" for x
    using keepsD [OF keeps_subfolderStep [OF Cons.prems [of x]], of d fs] that by simp
  have "invoked (evs (for_of (subfolderStep env) ds ?fs1)) =
          map (folderPath env) (filter (\<lambda>d. existsSync ?fs1 (folderPath env d)) ds)"
    by (rule Cons.IH) (simp add: Cons.prems)
  also have "filter (\<lambda>d. existsSync ?fs1 (folderPath env d)) ds =
             filter (\<lambda>d. existsSync fs (folderPath env d)) ds"
    by (rule filter_cong) (simp_all add: same)
  finally show ?case
    by (simp add: evs_and_then res_subfolderStep invoked_subfolderStep)
qed

text \<open>Reading and writing files.\<close>

lemma res_writeFileSync:
  "res (writeFileSync env p c fs) = (if writable env fs p then Inr () else Inl (FsError p))"
  and fs_of_writeFileSync:
  "fs_of (writeFileSync env p c fs) = (if writable env fs p then fs(p \<mapsto> File c) else fs)"
  and evs_writeFileSync:
  "evs (writeFileSync env p c fs) = (if writable env fs p then [WriteFile p] else [])"
  by (simp_all add: writeFileSync_def writable_def res_def fs_of_def evs_def
      split: option.splits node.splits)

lemma fs_of_readFileSync: "fs_of (readFileSync env p fs) = fs"
  and evs_readFileSync: "evs (readFileSync env p fs) = []"
  by (simp_all add: readFileSync_def fs_of_def evs_def split: option.splits node.splits)

lemma emits_readFileSync: "emits P (readFileSync env p)"
  by (simp add: emits_def evs_readFileSync)

lemma emits_writeFileSync: "P (WriteFile p) \<Longrightarrow> emits P (writeFileSync env p c)"
  by (simp add: emits_def evs_writeFileSync)

lemma keeps_readFileSync: "keeps obs (readFileSync env p)"
  by (simp add: keeps_def fs_of_readFileSync)

lemma keeps_entry_writeFileSync: "q \<noteq> p \<Longrightarrow> keeps (\<lambda>fs. fs q) (writeFileSync env p c)"
  by (simp add: keeps_def fs_of_writeFileSync)

text \<open>Step 2.\<close>

lemma emits_patchNested:
  assumes "P (Log NestedPatched)" "P (WriteFile (nestedPath env))"
  shows "emits P (patchNested env)"
proof -
  have "emits P (\<lambda>fs. if existsSync fs (nestedPath env)
          then and_then (readFileSync env (nestedPath env)) (\<lambda>nestedContent.
             steps [writeFileSync env (nestedPath env) (patched nestedContent),
                    console_log NestedPatched]) fs
          else ret () fs)"
    by (intro emits_if emits_and_then emits_readFileSync emits_ret emits_steps)
       (auto simp: assms emits_writeFileSync emits_log)
  then show ?thesis by (simp add: patchNested_def [abs_def])
qed

lemma emits_patchScrollCliIfNeeded:
  assumes "\<And>m. m \<in> {NotOnWindows, ParsersNotFound, Patching, Patched, NestedPatched,
             AlreadyPatched} \<Longrightarrow> P (Log m)"
    and "P (WriteFile (rootParsersPath env))" "P (WriteFile (nestedPath env))"
  shows "emits P (patchScrollCliIfNeeded env)"
proof -
  have yes: "emits P (steps [console_log Patching,
                         writeFileSync env (rootParsersPath env) (patched content),
                         console_log Patched,
                         patchNested env])" for content
    by (rule emits_steps) (auto intro: emits_log emits_writeFileSync emits_patchNested assms)
  have no: "emits P (console_log AlreadyPatched)"
    by (simp add: emits_log assms)
  have body: "emits P (and_then (readFileSync env (rootParsersPath env)) (\<lambda>content.
             if includes_str ''Utils.posix.dirname'' content
             then steps [console_log Patching,
                         writeFileSync env (rootParsersPath env) (patched content),
                         console_log Patched,
                         patchNested env]
             else console_log AlreadyPatched))"
  proof (rule emits_and_then [OF emits_readFileSync])
    fix content
    show "emits P (if includes_str ''Utils.posix.dirname'' content
             then steps [console_log Patching,
                         writeFileSync env (rootParsersPath env) (patched content),
                         console_log Patched,
                         patchNested env]
             else console_log AlreadyPatched)"
      using yes [of content] no by (cases "includes_str ''Utils.posix.dirname'' content") simp_all
  qed
  show ?thesis
    unfolding emits_def
  proof (intro allI ballI)
    fix fs e
    assume e: "e \<in> set (evs (patchScrollCliIfNeeded env fs))"
    show "P e"
    proof (cases "platform env \<noteq> ''win32''")
      case True
      with e show ?thesis by (simp add: patchScrollCliIfNeeded_def assms)
    next
      case win: False
      show ?thesis
      proof (cases "existsSync fs (rootParsersPath env)")
        case False
        with e win show ?thesis by (simp add: patchScrollCliIfNeeded_def assms)
      next
        case True
        with e win show ?thesis
          using emitsD [OF body, of e fs] by (simp add: patchScrollCliIfNeeded_def)
      qed
    qed
  qed
qed

lemma entry_patchNested:
  "fs_of (patchNested env fs) q = fs q \<or>
     (q = nestedPath env \<and> fs q \<noteq> None \<and> fs_of (patchNested env fs) q \<noteq> None)"
  by (simp add: patchNested_def fs_of_and_then fs_of_readFileSync fs_of_writeFileSync
      existsSync_def split: sum.splits)

lemma entry_patchScrollCliIfNeeded:
  "fs_of (patchScrollCliIfNeeded env fs) q = fs q \<or>
     ((q = rootParsersPath env \<or> q = nestedPath env) \<and> fs q \<noteq> None \<and>
      fs_of (patchScrollCliIfNeeded env fs) q \<noteq> None)"
proof (cases "platform env = ''win32'' \<and> existsSync fs (rootParsersPath env)")
  case False
  then show ?thesis by (auto simp: patchScrollCliIfNeeded_def)
next
  case True
  let ?r = "rootParsersPath env"
  show ?thesis
  proof (cases "res (readFileSync env ?r fs)")
    case (Inl e)
    with True show ?thesis
      by (simp add: patchScrollCliIfNeeded_def fs_of_and_then fs_of_readFileSync)
  next
    case (Inr content)
    show ?thesis
    proof (cases "includes_str ''Utils.posix.dirname'' content \<and> writable env fs ?r")
      case False
      with True Inr show ?thesis
        by (auto simp: patchScrollCliIfNeeded_def fs_of_and_then fs_of_readFileSync
            res_writeFileSync fs_of_writeFileSync)
    next
      case w: True
      let ?fs1 = "fs(?r \<mapsto> File (patched content))"
      have eq: "fs_of (patchScrollCliIfNeeded env fs) = fs_of (patchNested env ?fs1)"
        using True Inr w
        by (simp add: patchScrollCliIfNeeded_def fs_of_and_then fs_of_readFileSync
            res_and_then res_writeFileSync fs_of_writeFileSync split: sum.splits)
      from True have ex: "fs ?r \<noteq> None" by (simp add: existsSync_def)
      from entry_patchNested [of env ?fs1 q] ex show ?thesis
        unfolding eq by (cases "q = ?r") auto
    qed
  qed
qed

lemma keeps_exists_patch: "keeps (\<lambda>fs. existsSync fs q) (patchScrollCliIfNeeded env)"
  unfolding keeps_def
proof
  fix fs
  from entry_patchScrollCliIfNeeded [of env fs q]
  have "(fs_of (patchScrollCliIfNeeded env fs) q = None) = (fs q = None)"
    by (elim disjE conjE) force+
  then show "existsSync (fs_of (patchScrollCliIfNeeded env fs)) q = existsSync fs q"
    by (simp add: existsSync_def)
qed

lemma keeps_entry_patch:
  "q \<noteq> rootParsersPath env \<Longrightarrow> q \<noteq> nestedPath env \<Longrightarrow>
     keeps (\<lambda>fs. fs q) (patchScrollCliIfNeeded env)"
  unfolding keeps_def
proof
  assume q: "q \<noteq> rootParsersPath env" "q \<noteq> nestedPath env"
  fix fs
  from entry_patchScrollCliIfNeeded [of env fs q] q
  show "fs_of (patchScrollCliIfNeeded env fs) q = fs q"
    by simp
qed

text \<open>The paths of the script are distinct.\<close>

lemma SUBFOLDERS_nonempty: "d \<in> set SUBFOLDERS \<Longrightarrow> d \<noteq> []"
  by (auto simp: SUBFOLDERS_def)

lemma folderPath_eq: "d \<noteq> [] \<Longrightarrow> folderPath env d = root_prefix env @ d"
  by (simp add: folderPath_def root_prefix_def)

lemma indexPath_eq: "indexPath env = root_prefix env @ ''index.html''"
  by (simp add: indexPath_def root_prefix_def)

lemma root_prefix_neq_ROOT: "d \<noteq> [] \<Longrightarrow> root_prefix env @ d \<noteq> ROOT env"
  by (simp add: root_prefix_def)

lemma folderPath_neq_ROOT [simp]: "d \<noteq> [] \<Longrightarrow> folderPath env d \<noteq> ROOT env"
  by (simp add: folderPath_eq root_prefix_neq_ROOT)

lemma folderPath_inj [simp]:
  "d \<noteq> [] \<Longrightarrow> d' \<noteq> [] \<Longrightarrow> (folderPath env d = folderPath env d') = (d = d')"
  by (simp add: folderPath_eq)

lemma folderPath_neq_indexPath: "d \<in> set SUBFOLDERS \<Longrightarrow> folderPath env d \<noteq> indexPath env"
  by (auto simp: folderPath_eq indexPath_eq SUBFOLDERS_def)

lemma indexPath_neq_parsers [simp]:
  "indexPath env \<noteq> rootParsersPath env" "indexPath env \<noteq> nestedPath env"
  by (simp_all add: indexPath_def rootParsersPath_def nestedPath_def is_sep_def)

text \<open>Steps 1 to 4.\<close>

lemma emits_run:
  assumes "P (Log (Running (basename env cwd) cmd))" "\<And>ok. P (Exec Inherit cmd cwd ok)"
    "P (LogError (CommandFailed cmd))"
  shows "emits P (run env cmd cwd)"
  by (simp add: emits_def evs_run assms)

lemma emits_writeAllFeaturePages: "(\<And>ok. P (FeaturePages ok)) \<Longrightarrow> emits P (writeAllFeaturePages env)"
  by (simp add: emits_def evs_writeAllFeaturePages)

lemma keeps_run: "tools_keep env obs \<Longrightarrow> keeps obs (run env cmd cwd)"
  by (simp add: keeps_def fs_of_run tools_keep_def)

lemma keeps_writeAllFeaturePages: "tools_keep env obs \<Longrightarrow> keeps obs (writeAllFeaturePages env)"
  by (simp add: keeps_def fs_of_writeAllFeaturePages tools_keep_def)

lemma emits_prelude: "emits (prelude_event env) (prelude env)"
  unfolding prelude_def
  by (rule emits_steps)
     (auto intro: emits_log emits_run emits_writeAllFeaturePages emits_patchScrollCliIfNeeded)

lemma keeps_prelude:
  assumes "tools_keep env obs" "keeps obs (patchScrollCliIfNeeded env)"
  shows "keeps obs (prelude env)"
  unfolding prelude_def
  by (rule keeps_steps)
     (auto intro: keeps_log keeps_run keeps_writeAllFeaturePages assms)

lemma invoked_nil: "(\<And>e. e \<in> set t \<Longrightarrow> cwd_of e = []) \<Longrightarrow> invoked t = []"
  by (induction t) simp_all

lemma invoked_patch [simp]: "invoked (evs (patchScrollCliIfNeeded env fs)) = []"
proof (rule invoked_nil)
  fix e
  assume "e \<in> set (evs (patchScrollCliIfNeeded env fs))"
  moreover have "emits (\<lambda>e. cwd_of e = []) (patchScrollCliIfNeeded env)"
    by (rule emits_patchScrollCliIfNeeded) simp_all
  ultimately show "cwd_of e = []" by (rule emitsD [rotated])
qed

lemma invoked_prelude:
  "res (prelude env fs) = Inr () \<Longrightarrow> invoked (evs (prelude env fs)) = [ROOT env, ROOT env]"
  by (simp add: prelude_def res_and_then evs_and_then fs_of_and_then res_run evs_run
      evs_writeAllFeaturePages split: sum.splits if_splits)

lemma invoked_prelude_subset: "set (invoked (evs (prelude env fs))) \<subseteq> {ROOT env}"
proof
  fix c
  assume "c \<in> set (invoked (evs (prelude env fs)))"
  then obtain e where e: "e \<in> set (evs (prelude env fs))" and c: "c \<in> set (cwd_of e)"
    by (auto simp: invoked_def)
  from emitsD [OF emits_prelude e] c show "c \<in> {ROOT env}"
    by (cases e) auto
qed

lemma prelude_fails:
  assumes "\<And>fs. \<not> fst (shell env (buildCmd env) (ROOT env) fs)"
  shows "res (prelude env fs) \<noteq> Inr ()"
  by (simp add: prelude_def res_and_then res_run assms split: sum.splits)

text \<open>The whole build.\<close>

lemma build_loop:
  "build env =
     and_then (prelude env) (\<lambda>_.
     and_then (console_log Step5) (\<lambda>_.
     and_then (loop env) (\<lambda>_.
       steps [console_log RuleNL, console_log BuildComplete])))"
  by (simp add: build_split loop_def)

lemma res_loop': "res (loop env fs) = Inr ()"
  by (simp add: loop_def res_loop)

lemma res_build: "res (build env fs) = res (prelude env fs)"
  by (simp add: build_loop res_and_then res_loop' split: sum.splits)

lemma evs_build:
  "evs (build env fs) =
     (case res (prelude env fs) of
        Inl e \<Rightarrow> evs (prelude env fs)
      | Inr _ \<Rightarrow> evs (prelude env fs) @ [Log Step5] @ evs (loop env (fs_of (prelude env fs)))
                 @ [Log RuleNL, Log BuildComplete])"
  by (simp add: build_loop res_and_then evs_and_then fs_of_and_then res_loop' split: sum.splits)

lemma fs_of_build:
  "fs_of (build env fs) =
     (case res (prelude env fs) of
        Inl e \<Rightarrow> fs_of (prelude env fs)
      | Inr _ \<Rightarrow> fs_of (loop env (fs_of (prelude env fs))))"
  by (simp add: build_loop res_and_then fs_of_and_then res_loop' split: sum.splits)

text \<open>Main.\<close>

lemma prepare_no_serve: "\<not> shouldServe args \<Longrightarrow> prepare env args fs = (Inr None, fs, [])"
  by (simp add: prepare_def ret_def)

lemma prepare_serve:
  "shouldServe args \<Longrightarrow>
     prepare env args fs =
       (if writable env fs (indexPath env)
        then (Inr (Some (ChildProcess True False)), fs(indexPath env \<mapsto> File maintenanceHtml),
              setup_events env)
        else (Inl (FsError (indexPath env)), fs, [Log SettingUp]))"
  by (rule outcome_eqI)
     (simp_all add: prepare_def writeMaintenancePage_def startBackgroundServer_def spawn_def
       res_and_then fs_of_and_then evs_and_then res_writeFileSync fs_of_writeFileSync
       evs_writeFileSync setup_events_def res_def [of "(a, b)" for a b]
       fs_of_def [of "(a, b)" for a b] evs_def [of "(a, b)" for a b] split: sum.splits)

lemma outcome_collapse: "(res r, fs_of r, evs r) = r"
  by (simp add: res_def fs_of_def evs_def)

lemma main_alt:
  "main env args fs =
     (case res (prepare env args fs) of
        Inl e \<Rightarrow>
          \<lparr>disk = fs_of (prepare env args fs),
           trace = evs (prepare env args fs) @ [Uncaught e, Exit 1], serverProcess = None,
           server_up = False, sigint = False, exited = Some 1\<rparr>
      | Inr sp \<Rightarrow>
          (case res (build env (fs_of (prepare env args fs))) of
             Inr _ \<Rightarrow>
               drain (thenCallback (shouldServe args)
                 \<lparr>disk = fs_of (build env (fs_of (prepare env args fs))),
                  trace = evs (prepare env args fs)
                          @ evs (build env (fs_of (prepare env args fs))),
                  serverProcess = sp, server_up = started env sp, sigint = False,
                  exited = None\<rparr>)
           | Inl err \<Rightarrow>
               catchCallback err
                 \<lparr>disk = fs_of (build env (fs_of (prepare env args fs))),
                  trace = evs (prepare env args fs)
                          @ evs (build env (fs_of (prepare env args fs))),
                  serverProcess = sp, server_up = started env sp, sigint = False,
                  exited = None\<rparr>))"
  by (simp add: main_def res_def fs_of_def evs_def split: prod.splits sum.splits)

lemma prepare_ok:
  assumes "can_start env args fs"
  shows "res (prepare env args fs) =
           Inr (if shouldServe args then Some (ChildProcess True False) else None)"
    and "fs_of (prepare env args fs) = start_fs env args fs"
    and "evs (prepare env args fs) = start_events env args"
  using assms
  by (simp_all add: can_start_def prepare_serve prepare_no_serve start_fs_def start_events_def
      res_def fs_of_def evs_def)

lemma prepare_stuck:
  assumes "\<not> can_start env args fs"
  shows "shouldServe args"
    and "res (prepare env args fs) = Inl (FsError (indexPath env))"
    and "fs_of (prepare env args fs) = fs"
    and "evs (prepare env args fs) = [Log SettingUp]"
  using assms
  by (simp_all add: can_start_def prepare_serve res_def fs_of_def evs_def)

lemma main_unwritable:
  assumes "\<not> can_start env args fs"
  shows "main env args fs =
           \<lparr>disk = fs, trace = [Log SettingUp, Uncaught (FsError (indexPath env)), Exit 1],
            serverProcess = None, server_up = False, sigint = False, exited = Some 1\<rparr>"
  by (simp add: main_alt prepare_stuck [OF assms])

lemma main_fatal:
  assumes "can_start env args fs" "res (prelude env (start_fs env args fs)) = Inl err"
  shows "main env args fs =
           \<lparr>disk = fs_of (prelude env (start_fs env args fs)),
            trace = start_events env args @ evs (prelude env (start_fs env args fs))
                    @ abort_events (shouldServe args) err,
            serverProcess = (if shouldServe args then Some (ChildProcess True True) else None),
            server_up = (shouldServe args \<and> server_stays env (port_in_use env)),
            sigint = False, exited = Some 1\<rparr>"
  by (simp add: main_alt prepare_ok [OF assms(1)] res_build evs_build fs_of_build assms(2)
      catchCallback_def process_exit_def kill_server_def say_def abort_events_def started_def)

lemma main_complete:
  assumes "can_start env args fs" "res (prelude env (start_fs env args fs)) = Inr ()"
  shows "main env args fs =
           \<lparr>disk = fs_of (loop env (fs_of (prelude env (start_fs env args fs)))),
            trace = start_events env args @ evs (prelude env (start_fs env args fs))
                    @ [Log Step5]
                    @ evs (loop env (fs_of (prelude env (start_fs env args fs))))
                    @ [Log RuleNL, Log BuildComplete] @ closing_events env args,
            serverProcess = (if shouldServe args then Some (ChildProcess True False) else None),
            server_up = (shouldServe args \<and> server_stays env (port_in_use env)),
            sigint = shouldServe args,
            exited = (if shouldServe args \<and> server_stays env (port_in_use env) then None
                      else Some 0)\<rparr>"
  by (simp add: main_alt prepare_ok [OF assms(1)] res_build evs_build fs_of_build assms(2)
      thenCallback_def drain_def child_alive_def process_exit_def say_def closing_events_def
      started_def)

lemma main_cases [case_names stuck fatal complete]:
  obtains "\<not> can_start env args fs"
  | err where "can_start env args fs" "res (prelude env (start_fs env args fs)) = Inl err"
  | "can_start env args fs" "res (prelude env (start_fs env args fs)) = Inr ()"
  by (cases "res (prelude env (start_fs env args fs))") auto

lemmas run_defs =
  main_def prepare_def shouldServe_def build_def and_then_def tryCatch_def ret_def throw_def
  emit_def console_log_def console_error_def run_def runQuiet_def execSync_def
  patchScrollCliIfNeeded_def writeAllFeaturePages_def subfolderStep_def existsSync_def
  folderPath_def buildCmd_def SCROLL_CLI_def ROOT_def SUBFOLDERS_def sep_def is_sep_def
  basename_def writeMaintenancePage_def writeFileSync_def indexPath_def
  startBackgroundServer_def spawn_def thenCallback_def catchCallback_def drain_def say_def
  kill_server_def process_exit_def sigintHandler_def child_alive_def started_def

lemmas world_defs = linux_env_def root_fails_env_def books_fails_env_def site_fs_def abc_fs_def

lemma prelude_evs_D [simp]: "\<not> prelude_event env e \<Longrightarrow> e \<notin> set (evs (prelude env fs))"
  using emitsD [OF emits_prelude] by blast

lemma emits_runQuiet:
  assumes "P (Log (RunningQuiet (basename env cwd) cmd))" "\<And>ok. P (Exec Pipe cmd cwd ok)"
    "P (LogError (CommandFailed cmd))"
  shows "emits P (runQuiet env cmd cwd)"
  by (simp add: emits_def evs_runQuiet assms)

lemma emits_subfolderStep:
  "d \<in> set SUBFOLDERS \<Longrightarrow> emits (loop_event env) (subfolderStep env d)"
  by (auto simp: emits_def evs_subfolderStep)

lemma emits_loop: "emits (loop_event env) (loop env)"
  unfolding loop_def by (rule emits_for_of) (rule emits_subfolderStep)

lemma loop_evs_D [simp]: "\<not> loop_event env e \<Longrightarrow> e \<notin> set (evs (loop env fs))"
  using emitsD [OF emits_loop] by blast

lemma patch_no_exec [simp]: "Exec io cmd cwd ok \<notin> set (evs (patchScrollCliIfNeeded env fs))"
proof -
  have "emits (\<lambda>e. \<forall>io cmd cwd ok. e \<noteq> Exec io cmd cwd ok) (patchScrollCliIfNeeded env)"
    by (rule emits_patchScrollCliIfNeeded) simp_all
  from emitsD [OF this] show ?thesis by blast
qed

lemma prelude_ok_no_failed_exec:
  "res (prelude env fs) = Inr () \<Longrightarrow> Exec io cmd cwd False \<notin> set (evs (prelude env fs))"
  by (simp add: prelude_def res_and_then evs_and_then fs_of_and_then res_run evs_run
      evs_writeAllFeaturePages split: sum.splits if_splits)

lemma invoked_start_events [simp]: "invoked (start_events env args) = []"
  by (simp add: start_events_def setup_events_def)

lemma invoked_abort_events [simp]: "invoked (abort_events serve err) = []"
  by (simp add: abort_events_def)

lemma invoked_closing_events [simp]: "invoked (closing_events env args) = []"
  by (simp add: closing_events_def)

lemma tools_keep_linux [simp]: "tools_keep linux_env obs"
  and tools_keep_books_fails [simp]: "tools_keep books_fails_env obs"
  and tools_keep_root_fails [simp]: "tools_keep root_fails_env obs"
  by (simp_all add: tools_keep_def world_defs)

lemma exists_start_fs:
  "d \<in> set SUBFOLDERS \<Longrightarrow>
     existsSync (start_fs env args fs) (folderPath env d) = existsSync fs (folderPath env d)"
  by (simp add: start_fs_def existsSync_def folderPath_neq_indexPath)

lemma exists_after_prelude:
  "tools_keep env (\<lambda>fs. existsSync fs q) \<Longrightarrow>
     existsSync (fs_of (prelude env fs)) q = existsSync fs q"
  by (rule keepsD [OF keeps_prelude [OF _ keeps_exists_patch]])

lemma exists_at_loop:
  assumes "d \<in> set SUBFOLDERS" "tools_keep env (\<lambda>fs. existsSync fs (folderPath env d))"
  shows "existsSync (fs_of (prelude env (start_fs env args fs))) (folderPath env d) =
           existsSync fs (folderPath env d)"
  by (simp add: exists_after_prelude [OF assms(2)] exists_start_fs [OF assms(1)])

lemma reached_step5:
  "Log Step5 \<in> set (trace (main env args fs)) \<longleftrightarrow>
     can_start env args fs \<and> res (prelude env (start_fs env args fs)) = Inr ()"
  by (cases env args fs rule: main_cases)
     (auto simp: main_unwritable main_fatal main_complete start_events_def setup_events_def
       abort_events_def split: if_splits)

lemma build_complete_iff:
  "Log BuildComplete \<in> set (trace (main env args fs)) \<longleftrightarrow>
     can_start env args fs \<and> res (prelude env (start_fs env args fs)) = Inr ()"
  by (cases env args fs rule: main_cases)
     (auto simp: main_unwritable main_fatal main_complete start_events_def setup_events_def
       abort_events_def split: if_splits)

lemma subfolder_ran_complete:
  assumes "Exec Pipe cmd cwd ok \<in> set (trace (main env args fs))"
  shows "can_start env args fs \<and> res (prelude env (start_fs env args fs)) = Inr ()"
  using assms
  by (cases env args fs rule: main_cases)
     (auto simp: main_unwritable main_fatal main_complete start_events_def setup_events_def
       abort_events_def split: if_splits)

lemma invoked_complete:
  assumes "can_start env args fs" "res (prelude env (start_fs env args fs)) = Inr ()"
  shows "invoked (trace (main env args fs)) =
           ROOT env # ROOT env #
           invoked (evs (loop env (fs_of (prelude env (start_fs env args fs)))))"
  by (simp add: main_complete [OF assms] invoked_prelude [OF assms(2)])

lemma exit_complete:
  assumes "can_start env args fs" "res (prelude env (start_fs env args fs)) = Inr ()"
  shows "exited (main env args fs) =
           (if shouldServe args \<and> server_stays env (port_in_use env) then None else Some 0)"
    and "sigint (main env args fs) = shouldServe args"
    and "serverProcess (main env args fs) =
           (if shouldServe args then Some (ChildProcess True False) else None)"
  by (simp_all add: main_complete [OF assms])

lemma invoked_loop_Cons:
  "invoked (evs (for_of (subfolderStep env) (d # ds) fs)) =
     (if existsSync fs (folderPath env d) then [folderPath env d] else [])
     @ invoked (evs (for_of (subfolderStep env) ds (fs_of (subfolderStep env d fs))))"
  by (simp add: evs_and_then res_subfolderStep invoked_subfolderStep)

lemma invoked_loop_append:
  "invoked (evs (for_of (subfolderStep env) (xs @ ys) fs)) =
     invoked (evs (for_of (subfolderStep env) xs fs))
     @ invoked (evs (for_of (subfolderStep env) ys (fs_of (for_of (subfolderStep env) xs fs))))"
  by (simp add: for_of_append evs_and_then res_loop)

lemma creators_lists_in_loop:
  assumes kc: "tools_keep env (\<lambda>fs. existsSync fs (folderPath env ''creators''))"
    and kl: "tools_keep env (\<lambda>fs. existsSync fs (folderPath env ''lists''))"
    and ec: "existsSync fs (folderPath env ''creators'')"
    and el: "existsSync fs (folderPath env ''lists'')"
  shows "\<exists>pre mid post.
           invoked (evs (loop env fs)) =
             pre @ folderPath env ''creators'' # mid @ folderPath env ''lists'' # post \<and>
           set pre \<subseteq> folderPath env ` {''blog'', ''books'', ''concepts''} \<and>
           set mid \<subseteq> folderPath env ` {''features''} \<and>
           set post \<subseteq> folderPath env ` {''pages''}"
proof -
  let ?F = "for_of (subfolderStep env)"
  let ?A = "[''blog'', ''books'', ''concepts'']"
  let ?B = "[''features'']"
  let ?C = "[''pages'']"
  let ?fs1 = "fs_of (?F ?A fs)"
  let ?fs2 = "fs_of (subfolderStep env ''creators'' ?fs1)"
  let ?fs3 = "fs_of (?F ?B ?fs2)"
  let ?fs4 = "fs_of (subfolderStep env ''lists'' ?fs3)"
  let ?pre = "invoked (evs (?F ?A fs))"
  let ?mid = "invoked (evs (?F ?B ?fs2))"
  let ?post = "invoked (evs (?F ?C ?fs4))"
  have c1: "existsSync ?fs1 (folderPath env ''creators'')"
    using keepsD [OF keeps_loop [OF kc], of ?A fs] ec by simp
  have l1: "existsSync ?fs1 (folderPath env ''lists'')"
    using keepsD [OF keeps_loop [OF kl], of ?A fs] el by simp
  have l2: "existsSync ?fs2 (folderPath env ''lists'')"
    using keepsD [OF keeps_subfolderStep [OF kl], of "''creators''" ?fs1] l1 by simp
  have l3: "existsSync ?fs3 (folderPath env ''lists'')"
    using keepsD [OF keeps_loop [OF kl], of ?B ?fs2] l2 by simp
  have split: "SUBFOLDERS = ?A @ ''creators'' # ?B @ ''lists'' # ?C"
    by (simp add: SUBFOLDERS_def)
  have "invoked (evs (loop env fs)) = ?pre @ invoked (evs (?F (''creators'' # ?B @ ''lists'' # ?C) ?fs1))"
    unfolding loop_def split by (rule invoked_loop_append)
  also have "invoked (evs (?F (''creators'' # ?B @ ''lists'' # ?C) ?fs1)) =
             folderPath env ''creators'' # invoked (evs (?F (?B @ ''lists'' # ?C) ?fs2))"
    using c1 by (simp only: invoked_loop_Cons if_True append_Cons append_Nil)
  also have "invoked (evs (?F (?B @ ''lists'' # ?C) ?fs2)) =
             ?mid @ invoked (evs (?F (''lists'' # ?C) ?fs3))"
    by (rule invoked_loop_append)
  also have "invoked (evs (?F (''lists'' # ?C) ?fs3)) = folderPath env ''lists'' # ?post"
    using l3 by (simp only: invoked_loop_Cons if_True append_Cons append_Nil)
  finally have eq: "invoked (evs (loop env fs)) =
      ?pre @ folderPath env ''creators'' # ?mid @ folderPath env ''lists'' # ?post" .
  have "set ?pre \<subseteq> folderPath env ` {''blog'', ''books'', ''concepts''}"
    using invoked_loop_subset [of env ?A fs] by simp
  moreover have "set ?mid \<subseteq> folderPath env ` {''features''}"
    using invoked_loop_subset [of env ?B ?fs2] by simp
  moreover have "set ?post \<subseteq> folderPath env ` {''pages''}"
    using invoked_loop_subset [of env ?C ?fs4] by simp
  ultimately show ?thesis using eq by blast
qed

lemma creators_then_lists_when_present:
  assumes "tools_keep env (\<lambda>fs. existsSync fs (folderPath env ''creators''))"
    and "tools_keep env (\<lambda>fs. existsSync fs (folderPath env ''lists''))"
    and "existsSync fs (folderPath env ''creators'')"
    and "existsSync fs (folderPath env ''lists'')"
  shows "(Log Step5 \<in> set (trace (main env args fs)) \<and>
          (\<exists>pre mid post.
             invoked (trace (main env args fs)) =
               pre @ folderPath env ''creators'' # mid @ folderPath env ''lists'' # post \<and>
             folderPath env ''creators'' \<notin> set (pre @ mid @ post) \<and>
             folderPath env ''lists'' \<notin> set (pre @ mid @ post)))
         \<or>
         (Log Step5 \<notin> set (trace (main env args fs)) \<and>
          folderPath env ''creators'' \<notin> set (invoked (trace (main env args fs))) \<and>
          folderPath env ''lists'' \<notin> set (invoked (trace (main env args fs))))"
proof (cases "Log Step5 \<in> set (trace (main env args fs))")
  case True
  then have ok: "can_start env args fs" "res (prelude env (start_fs env args fs)) = Inr ()"
    by (simp_all add: reached_step5)
  let ?fs = "fs_of (prelude env (start_fs env args fs))"
  have c: "''creators'' \<in> set SUBFOLDERS" and l: "''lists'' \<in> set SUBFOLDERS"
    by (simp_all add: SUBFOLDERS_def)
  have "existsSync ?fs (folderPath env ''creators'')" "existsSync ?fs (folderPath env ''lists'')"
    by (simp_all add: exists_at_loop c l assms)
  from creators_lists_in_loop [OF assms(1,2) this]
  obtain pre mid post where
    eq: "invoked (evs (loop env ?fs)) =
           pre @ folderPath env ''creators'' # mid @ folderPath env ''lists'' # post"
    and sub: "set pre \<subseteq> folderPath env ` {''blog'', ''books'', ''concepts''}"
      "set mid \<subseteq> folderPath env ` {''features''}"
      "set post \<subseteq> folderPath env ` {''pages''}"
    by blast
  have "invoked (trace (main env args fs)) =
          (ROOT env # ROOT env # pre) @ folderPath env ''creators'' # mid
          @ folderPath env ''lists'' # post"
    by (simp add: invoked_complete [OF ok] eq)
  moreover have "folderPath env ''creators'' \<notin> set ((ROOT env # ROOT env # pre) @ mid @ post)"
    using sub by auto
  moreover have "folderPath env ''lists'' \<notin> set ((ROOT env # ROOT env # pre) @ mid @ post)"
    using sub by auto
  ultimately show ?thesis using True by blast
next
  case False
  have sub: "set (invoked (trace (main env args fs))) \<subseteq> {ROOT env}"
  proof (cases env args fs rule: main_cases)
    case stuck
    then show ?thesis by (simp add: main_unwritable)
  next
    case (fatal err)
    then show ?thesis
      using invoked_prelude_subset [of env "start_fs env args fs"] by (simp add: main_fatal)
  next
    case complete
    with False show ?thesis by (simp add: reached_step5)
  qed
  have "folderPath env d \<notin> set (invoked (trace (main env args fs)))" if "d \<noteq> []" for d
    using sub that by auto
  with False show ?thesis by simp
qed


lemma no_spawn_prelude [simp]: "filter is_Spawn (evs (prelude env fs)) = []"
proof -
  have "\<not> is_Spawn e" if "e \<in> set (evs (prelude env fs))" for e
    using emitsD [OF emits_prelude that] by (cases e) simp_all
  then show ?thesis by (simp add: filter_empty_conv)
qed

lemma no_spawn_loop [simp]: "filter is_Spawn (evs (loop env fs)) = []"
proof -
  have "\<not> is_Spawn e" if "e \<in> set (evs (loop env fs))" for e
    using emitsD [OF emits_loop that] by (cases e) simp_all
  then show ?thesis by (simp add: filter_empty_conv)
qed

lemma index_kept_by_build:
  assumes "tools_keep env (\<lambda>fs. fs (indexPath env))"
  shows "fs_of (loop env (fs_of (prelude env fs))) (indexPath env) = fs (indexPath env)"
proof -
  have "keeps (\<lambda>fs. fs (indexPath env)) (patchScrollCliIfNeeded env)"
    by (rule keeps_entry_patch) simp_all
  from keepsD [OF keeps_prelude [OF assms this]]
  have "fs_of (prelude env fs) (indexPath env) = fs (indexPath env)" .
  moreover from keepsD [OF keeps_loop [OF assms]]
  have "fs_of (loop env (fs_of (prelude env fs))) (indexPath env) =
          fs_of (prelude env fs) (indexPath env)"
    by (simp add: loop_def)
  ultimately show ?thesis by simp
qed

lemma failed_simps [simp]:
  "failed [] = []"
  "failed (e # t) = failed_of e @ failed t"
  "failed (t @ u) = failed t @ failed u"
  by (simp_all add: failed_def)

lemma warned_simps [simp]:
  "warned [] = []"
  "warned (e # t) = warned_of e @ warned t"
  "warned (t @ u) = warned t @ warned u"
  by (simp_all add: warned_def)

lemma quiet_prelude [simp]:
  "failed (evs (prelude env fs)) = []" "warned (evs (prelude env fs)) = []"
proof -
  have q: "prelude_event env e \<Longrightarrow> failed_of e = [] \<and> warned_of e = []" for e
    by (induction env e rule: prelude_event.induct) simp_all
  have "failed_of e = [] \<and> warned_of e = []" if "e \<in> set (evs (prelude env fs))" for e
    using emitsD [OF emits_prelude that] by (rule q)
  then show "failed (evs (prelude env fs)) = []" "warned (evs (prelude env fs)) = []"
    by (simp_all add: failed_def warned_def)
qed

lemma warned_failed_loop:
  "map (folderPath env) (warned (evs (for_of (subfolderStep env) ds fs))) =
     failed (evs (for_of (subfolderStep env) ds fs))"
  by (induction ds arbitrary: fs)
     (simp_all add: evs_and_then res_subfolderStep evs_subfolderStep)

lemma summary_none: "Log RuleNL \<notin> set t \<Longrightarrow> summary t = []"
  by (auto simp: summary_def)

lemma summary_found: "Log RuleNL \<notin> set t \<Longrightarrow> summary (t @ Log RuleNL # u) = Log RuleNL # u"
  by (induction t) (auto simp: summary_def)

lemma summary_main:
  "summary (trace (main env args fs)) =
     (if can_start env args fs \<and> res (prelude env (start_fs env args fs)) = Inr ()
      then [Log RuleNL, Log BuildComplete] @ closing_events env args else [])"
proof (cases env args fs rule: main_cases)
  case stuck
  then show ?thesis by (simp add: main_unwritable summary_def)
next
  case (fatal err)
  have "Log RuleNL \<notin> set (trace (main env args fs))"
    by (auto simp: main_fatal [OF fatal] start_events_def setup_events_def abort_events_def)
  with fatal show ?thesis by (simp add: summary_none)
next
  case complete
  let ?t = "start_events env args @ evs (prelude env (start_fs env args fs)) @ [Log Step5]
            @ evs (loop env (fs_of (prelude env (start_fs env args fs))))"
  have eq: "trace (main env args fs) =
          ?t @ Log RuleNL # Log BuildComplete # closing_events env args"
    by (simp add: main_complete [OF complete])
  have nin: "Log RuleNL \<notin> set ?t"
    by (auto simp: start_events_def setup_events_def)
  have "summary (trace (main env args fs)) =
          Log RuleNL # Log BuildComplete # closing_events env args"
    unfolding eq by (rule summary_found [OF nin])
  then show ?thesis using complete by simp
qed

lemma lists_last_in_loop:
  assumes "invoked (evs (loop env fs)) = pre @ folderPath env ''lists'' # post"
  shows "folderPath env ''creators'' \<notin> set post"
proof -
  let ?F = "for_of (subfolderStep env)"
  let ?A = "[''blog'', ''books'', ''concepts'', ''creators'', ''features'']"
  let ?C = "[''pages'']"
  let ?fs1 = "fs_of (?F ?A fs)"
  let ?fs2 = "fs_of (subfolderStep env ''lists'' ?fs1)"
  let ?U = "invoked (evs (?F ?A fs))"
  let ?V = "invoked (evs (?F ?C ?fs2))"
  have split: "SUBFOLDERS = ?A @ ''lists'' # ?C"
    by (simp add: SUBFOLDERS_def)
  have U: "set ?U \<subseteq> folderPath env ` set ?A"
    by (rule invoked_loop_subset)
  have V: "set ?V \<subseteq> folderPath env ` set ?C"
    by (rule invoked_loop_subset)
  have eq: "invoked (evs (loop env fs)) =
      ?U @ (if existsSync ?fs1 (folderPath env ''lists'') then [folderPath env ''lists''] else [])
      @ ?V"
    unfolding loop_def split by (simp only: invoked_loop_append invoked_loop_Cons)
  have lU: "folderPath env ''lists'' \<notin> set ?U" using U by auto
  have lV: "folderPath env ''lists'' \<notin> set ?V" using V by auto
  show ?thesis
  proof (cases "existsSync ?fs1 (folderPath env ''lists'')")
    case True
    with eq assms have "?U @ folderPath env ''lists'' # ?V = pre @ folderPath env ''lists'' # post"
      by simp
    with lU lV have "post = ?V" by (simp add: append_Cons_eq_iff)
    with V show ?thesis by auto
  next
    case False
    with eq have "folderPath env ''lists'' \<notin> set (invoked (evs (loop env fs)))"
      using lU lV by simp
    with assms show ?thesis by simp
  qed
qed

lemma lists_never_before_creators:
  assumes "invoked (trace (main env args fs)) = pre @ folderPath env ''lists'' # post"
  shows "folderPath env ''creators'' \<notin> set post"
proof (cases env args fs rule: main_cases)
  case stuck
  with assms show ?thesis by (simp add: main_unwritable)
next
  case (fatal err)
  have "set (invoked (trace (main env args fs))) \<subseteq> {ROOT env}"
    using invoked_prelude_subset [of env "start_fs env args fs"] by (simp add: main_fatal [OF fatal])
  with assms show ?thesis by auto
next
  case complete
  let ?L = "invoked (evs (loop env (fs_of (prelude env (start_fs env args fs)))))"
  from assms have eq: "ROOT env # ROOT env # ?L = pre @ folderPath env ''lists'' # post"
    by (simp add: invoked_complete [OF complete])
  then obtain pre' where "?L = pre' @ folderPath env ''lists'' # post"
    using folderPath_neq_ROOT [of "''lists''" env, THEN not_sym]
    by (cases pre; cases "tl pre") auto
  then show ?thesis by (rule lists_last_in_loop)
qed

lemma deliver_complete:
  assumes "can_start env args fs" "res (prelude env (start_fs env args fs)) = Inr ()"
  shows "exited (deliver e (main env args fs)) = Some 0"
  by (cases e)
     (simp_all add: main_complete [OF assms] sigintHandler_def process_exit_def
       kill_server_def say_def drain_def child_alive_def)

lemma is_sep_sep [simp]: "is_sep env (sep env)"
  by (simp add: is_sep_def sep_def)

lemma basename_root_prefix:
  assumes "\<And>c. c \<in> set d \<Longrightarrow> \<not> is_sep env c"
  shows "basename env (root_prefix env @ d) = d"
proof -
  have stop: "takeWhile (\<lambda>c. \<not> is_sep env c) (rev (root_prefix env)) = []"
    by (cases "ROOT env" rule: rev_cases) (simp_all add: root_prefix_def)
  have "takeWhile (\<lambda>c. \<not> is_sep env c) (rev d @ rev (root_prefix env)) =
          rev d @ takeWhile (\<lambda>c. \<not> is_sep env c) (rev (root_prefix env))"
    by (rule takeWhile_append2) (simp add: assms)
  then show ?thesis by (simp add: basename_def stop)
qed

lemma basename_folderPath: "d \<in> set SUBFOLDERS \<Longrightarrow> basename env (folderPath env d) = d"
proof -
  assume d: "d \<in> set SUBFOLDERS"
  then have "\<not> is_sep env c" if "c \<in> set d" for c
    using that by (auto simp: SUBFOLDERS_def is_sep_def)
  then have "basename env (root_prefix env @ d) = d" by (rule basename_root_prefix)
  then show ?thesis by (simp add: folderPath_eq SUBFOLDERS_nonempty [OF d])
qed

lemma loop_silent:
  assumes "tools_keep env (\<lambda>fs. existsSync fs (folderPath env d))"
    and "d \<in> set SUBFOLDERS" "set ds \<subseteq> set SUBFOLDERS"
    and "\<not> existsSync fs (folderPath env d)"
  shows "folderPath env d \<notin> set (invoked (evs (for_of (subfolderStep env) ds fs))) \<and>
         Log (Building d) \<notin> set (evs (for_of (subfolderStep env) ds fs)) \<and>
         Log (RunningQuiet d c) \<notin> set (evs (for_of (subfolderStep env) ds fs)) \<and>
         Log (Built d) \<notin> set (evs (for_of (subfolderStep env) ds fs)) \<and>
         LogError (HadErrors d) \<notin> set (evs (for_of (subfolderStep env) ds fs))"
  using assms(3,4)
proof (induction ds arbitrary: fs)
  case Nil
  show ?case by simp
next
  case (Cons x ds)
  let ?fs1 = "fs_of (subfolderStep env x fs)"
  have x: "x \<in> set SUBFOLDERS" and ds: "set ds \<subseteq> set SUBFOLDERS"
    using Cons.prems(1) by simp_all
  have "\<not> existsSync ?fs1 (folderPath env d)"
    using keepsD [OF keeps_subfolderStep [OF assms(1)], of x fs] Cons.prems(2) by simp
  from Cons.IH [OF ds this] Cons.prems(2) show ?case
    by (auto simp: evs_and_then res_subfolderStep evs_subfolderStep basename_folderPath [OF x])
qed









lemma follows_append: "follows env r t \<Longrightarrow> follows env r (t @ u)"
  by (auto simp: follows_def)

lemma prompt_append: "prompt env t \<Longrightarrow> prompt env u \<Longrightarrow> prompt env (t @ u)"
  by (induction t) (auto simp: follows_append split: option.splits)

lemma prompt_quiet: "(\<And>e. e \<in> set t \<Longrightarrow> failed_run e = None) \<Longrightarrow> prompt env t"
  by (induction t) simp_all

lemma prompt_D:
  "prompt env (pre @ e # post) \<Longrightarrow> failed_run e = Some r \<Longrightarrow> follows env r post"
  by (induction pre) simp_all

lemma prompt_prelude: "prompt env' (evs (prelude env fs))"
proof (rule prompt_quiet)
  fix e
  assume "e \<in> set (evs (prelude env fs))"
  from emitsD [OF emits_prelude this] show "failed_run e = None"
    by (induction env e rule: prelude_event.induct) simp_all
qed

lemma prompt_subfolderStep: "prompt env (evs (subfolderStep env d fs))"
  by (simp add: evs_subfolderStep follows_def)

lemma prompt_loop: "prompt env (evs (for_of (subfolderStep env) ds fs))"
  by (induction ds arbitrary: fs)
     (simp_all add: evs_and_then res_subfolderStep prompt_append prompt_subfolderStep)

lemma prompt_main: "prompt env (trace (main env args fs))"
proof (cases env args fs rule: main_cases)
  case stuck
  then show ?thesis by (simp add: main_unwritable)
next
  case (fatal err)
  have "prompt env (start_events env args)" "prompt env (abort_events (shouldServe args) err)"
    by (simp_all add: start_events_def setup_events_def abort_events_def)
  then show ?thesis
    by (simp add: main_fatal [OF fatal] prompt_append prompt_prelude)
next
  case complete
  have "prompt env (start_events env args)" "prompt env [Log Step5]"
    "prompt env ([Log RuleNL, Log BuildComplete] @ closing_events env args)"
    by (simp_all add: start_events_def setup_events_def closing_events_def)
  then show ?thesis
    unfolding main_complete [OF complete] proc.simps
    by (intro prompt_append prompt_prelude) (simp_all add: loop_def prompt_loop)
qed

section \<open>The claims\<close>

subsection \<open>C1\<close>

text \<open>
  C1. In no run does a generator run in creators come after a generator run in lists.
  And in every run in which the directories creators and lists both exist (no external
  tool removing or creating them during the run): if the run reaches Step 5, the generator
  is run in creators exactly once, in lists exactly once, and the run in creators comes
  first; if the run stops before Step 5, it is run in neither.
\<close>

theorem creators_before_lists:
  "(\<forall>pre post.
      invoked (trace (main env args fs)) = pre @ folderPath env ''lists'' # post \<longrightarrow>
      folderPath env ''creators'' \<notin> set post)
   \<and>
   (tools_keep env (\<lambda>fs. existsSync fs (folderPath env ''creators'')) \<and>
    tools_keep env (\<lambda>fs. existsSync fs (folderPath env ''lists'')) \<and>
    existsSync fs (folderPath env ''creators'') \<and>
    existsSync fs (folderPath env ''lists'') \<longrightarrow>
      (Log Step5 \<in> set (trace (main env args fs)) \<and>
       (\<exists>pre mid post.
          invoked (trace (main env args fs)) =
            pre @ folderPath env ''creators'' # mid @ folderPath env ''lists'' # post \<and>
          folderPath env ''creators'' \<notin> set (pre @ mid @ post) \<and>
          folderPath env ''lists'' \<notin> set (pre @ mid @ post)))
      \<or>
      (Log Step5 \<notin> set (trace (main env args fs)) \<and>
       folderPath env ''creators'' \<notin> set (invoked (trace (main env args fs))) \<and>
       folderPath env ''lists'' \<notin> set (invoked (trace (main env args fs)))))"
  using lists_never_before_creators [of env args fs]
    creators_then_lists_when_present [of env fs args]
  by blast

theorem creators_before_lists_witness:
  "tools_keep linux_env (\<lambda>fs. existsSync fs (folderPath linux_env ''creators'')) \<and>
   tools_keep linux_env (\<lambda>fs. existsSync fs (folderPath linux_env ''lists'')) \<and>
   existsSync site_fs (folderPath linux_env ''creators'') \<and>
   existsSync site_fs (folderPath linux_env ''lists'') \<and>
   Log Step5 \<in> set (trace (main linux_env [] site_fs)) \<and>
   (\<exists>pre mid post.
      invoked (trace (main linux_env [] site_fs)) =
        pre @ folderPath linux_env ''creators'' # mid @ folderPath linux_env ''lists'' # post \<and>
      folderPath linux_env ''creators'' \<notin> set (pre @ mid @ post) \<and>
      folderPath linux_env ''lists'' \<notin> set (pre @ mid @ post)) \<and>
   invoked (trace (main linux_env [] site_fs)) =
     [''/pldb'', ''/pldb'', ''/pldb/blog'', ''/pldb/books'', ''/pldb/concepts'',
      ''/pldb/creators'', ''/pldb/features'', ''/pldb/lists'', ''/pldb/pages'']"
proof -
  have c: "existsSync site_fs (folderPath linux_env ''creators'')"
    and l: "existsSync site_fs (folderPath linux_env ''lists'')"
    by (simp_all add: existsSync_def folderPath_def ROOT_def sep_def is_sep_def world_defs)
  have s: "Log Step5 \<in> set (trace (main linux_env [] site_fs))"
    by (simp add: run_defs world_defs)
  have i: "invoked (trace (main linux_env [] site_fs)) =
     [''/pldb'', ''/pldb'', ''/pldb/blog'', ''/pldb/books'', ''/pldb/concepts'',
      ''/pldb/creators'', ''/pldb/features'', ''/pldb/lists'', ''/pldb/pages'']"
    by (simp add: run_defs world_defs)
  from creators_before_lists [of linux_env "[]" site_fs] c l s
  have "\<exists>pre mid post.
      invoked (trace (main linux_env [] site_fs)) =
        pre @ folderPath linux_env ''creators'' # mid @ folderPath linux_env ''lists'' # post \<and>
      folderPath linux_env ''creators'' \<notin> set (pre @ mid @ post) \<and>
      folderPath linux_env ''lists'' \<notin> set (pre @ mid @ post)"
    by simp
  with c l s i show ?thesis by simp
qed

subsection \<open>C2\<close>

text \<open>
  C2. If the root build step fails, that is the generator run in the root folder by Step 3
  exits non-zero, then no command is ever executed in a subfolder and the process ends with
  status 1.
\<close>

theorem root_failure_is_fatal:
  assumes "Exec Inherit (buildCmd env) (ROOT env) False \<in> set (trace (main env args fs))"
  shows "(\<forall>d \<in> set SUBFOLDERS. folderPath env d \<notin> set (invoked (trace (main env args fs))))
         \<and> exited (main env args fs) = Some 1"
proof (cases env args fs rule: main_cases)
  case stuck
  then show ?thesis by (simp add: main_unwritable)
next
  case (fatal err)
  have "folderPath env d \<notin> set (invoked (evs (prelude env (start_fs env args fs))))"
    if "d \<in> set SUBFOLDERS" for d
    using invoked_prelude_subset [of env "start_fs env args fs"] SUBFOLDERS_nonempty [OF that]
    by auto
  with fatal show ?thesis by (simp add: main_fatal)
next
  case complete
  with assms prelude_ok_no_failed_exec [OF complete(2)] have False
    by (auto simp: main_complete start_events_def setup_events_def closing_events_def
        split: if_splits)
  then show ?thesis ..
qed

theorem root_failure_is_fatal_witness:
  "Exec Inherit (buildCmd root_fails_env) (ROOT root_fails_env) False
     \<in> set (trace (main root_fails_env [] site_fs)) \<and>
   folderPath root_fails_env ''creators''
     \<notin> set (invoked (trace (main root_fails_env [] site_fs))) \<and>
   folderPath root_fails_env ''lists''
     \<notin> set (invoked (trace (main root_fails_env [] site_fs))) \<and>
   exited (main root_fails_env [] site_fs) = Some 1"
proof -
  have h: "Exec Inherit (buildCmd root_fails_env) (ROOT root_fails_env) False
             \<in> set (trace (main root_fails_env [] site_fs))"
    by (simp add: run_defs world_defs)
  from root_failure_is_fatal [OF h] h show ?thesis by (simp add: SUBFOLDERS_def)
qed

subsection \<open>C3\<close>

text \<open>
  C3. If the generator of a subfolder fails (which can only happen after the root and
  bridging steps succeeded), the run goes on to its end and prints Build complete, and the
  process exits with status 0: at once without --serve, and also under --serve when the
  server has ended; with a server that is up the process waits, and whatever ends it, the
  interrupt (through the registered handler) or the end of the server, ends it with status
  0. And when no external tool creates or removes a subfolder directory, the commands of
  the run are the two of the root followed by the generator in every subfolder that
  exists, in the declared order, whichever of them fail. This holds for any number of
  failing subfolders, one in particular.
\<close>

theorem subfolder_failure_is_isolated:
  assumes "Exec Pipe (buildCmd env) (folderPath env b) False \<in> set (trace (main env args fs))"
  shows "Log BuildComplete \<in> set (trace (main env args fs))
         \<and> exited (main env args fs) =
             (if shouldServe args \<and> server_stays env (port_in_use env) then None else Some 0)
         \<and> (\<forall>e. exited (deliver e (main env args fs)) = Some 0)
         \<and> ((\<forall>d \<in> set SUBFOLDERS. tools_keep env (\<lambda>fs. existsSync fs (folderPath env d))) \<longrightarrow>
              invoked (trace (main env args fs)) =
                ROOT env # ROOT env #
                map (folderPath env) (filter (\<lambda>d. existsSync fs (folderPath env d)) SUBFOLDERS))"
proof -
  from subfolder_ran_complete [OF assms]
  have ok: "can_start env args fs" "res (prelude env (start_fs env args fs)) = Inr ()"
    by simp_all
  let ?fs = "fs_of (prelude env (start_fs env args fs))"
  have "Log BuildComplete \<in> set (trace (main env args fs))"
    by (simp add: build_complete_iff ok)
  moreover have "exited (main env args fs) =
      (if shouldServe args \<and> server_stays env (port_in_use env) then None else Some 0)"
    by (rule exit_complete [OF ok])
  moreover have "invoked (trace (main env args fs)) =
      ROOT env # ROOT env #
      map (folderPath env) (filter (\<lambda>d. existsSync fs (folderPath env d)) SUBFOLDERS)"
    if st: "\<forall>d \<in> set SUBFOLDERS. tools_keep env (\<lambda>fs. existsSync fs (folderPath env d))"
  proof -
    have "invoked (evs (loop env ?fs)) =
            map (folderPath env) (filter (\<lambda>d. existsSync ?fs (folderPath env d)) SUBFOLDERS)"
      unfolding loop_def by (rule invoked_loop) (simp add: st)
    also have "filter (\<lambda>d. existsSync ?fs (folderPath env d)) SUBFOLDERS =
               filter (\<lambda>d. existsSync fs (folderPath env d)) SUBFOLDERS"
      by (rule filter_cong) (simp_all add: exists_at_loop st)
    finally show ?thesis by (simp add: invoked_complete [OF ok])
  qed
  ultimately show ?thesis by (simp add: deliver_complete [OF ok])
qed

theorem subfolder_failure_is_isolated_witness:
  "tools_keep books_fails_env (\<lambda>fs. existsSync fs (folderPath books_fails_env ''pages'')) \<and>
   Exec Pipe (buildCmd books_fails_env) (folderPath books_fails_env ''books'') False
     \<in> set (trace (main books_fails_env [''--serve''] site_fs)) \<and>
   failed (trace (main books_fails_env [''--serve''] site_fs)) = [''/pldb/books''] \<and>
   invoked (trace (main books_fails_env [''--serve''] site_fs)) =
     [''/pldb'', ''/pldb'', ''/pldb/blog'', ''/pldb/books'', ''/pldb/concepts'',
      ''/pldb/creators'', ''/pldb/features'', ''/pldb/lists'', ''/pldb/pages''] \<and>
   Log BuildComplete \<in> set (trace (main books_fails_env [''--serve''] site_fs)) \<and>
   exited (main books_fails_env [''--serve''] site_fs) = None \<and>
   exited (deliver Interrupt (main books_fails_env [''--serve''] site_fs)) = Some 0 \<and>
   exited (deliver ServerEnds (main books_fails_env [''--serve''] site_fs)) = Some 0"
proof -
  have h: "Exec Pipe (buildCmd books_fails_env) (folderPath books_fails_env ''books'') False
             \<in> set (trace (main books_fails_env [''--serve''] site_fs))"
    by (simp add: run_defs world_defs)
  have f: "failed (trace (main books_fails_env [''--serve''] site_fs)) = [''/pldb/books'']"
    by (simp add: run_defs world_defs)
  have e: "map (folderPath books_fails_env)
             (filter (\<lambda>d. existsSync site_fs (folderPath books_fails_env d)) SUBFOLDERS) =
           [''/pldb/blog'', ''/pldb/books'', ''/pldb/concepts'',
            ''/pldb/creators'', ''/pldb/features'', ''/pldb/lists'', ''/pldb/pages'']"
    by (simp add: SUBFOLDERS_def folderPath_def existsSync_def ROOT_def sep_def is_sep_def
        world_defs)
  have r: "ROOT books_fails_env = ''/pldb''"
    "shouldServe [''--serve'']"
    "server_stays books_fails_env (port_in_use books_fails_env)"
    by (simp_all add: ROOT_def shouldServe_def world_defs)
  from subfolder_failure_is_isolated [OF h] h e f show ?thesis
    by (simp add: r del: deliver.simps)
qed

subsection \<open>C4\<close>

text \<open>
  C4, as the code has it. Every subfolder whose generator fails is named in a warning line
  of its own, printed at the moment it fails: whenever a generator run in a subfolder
  fails, the very next two lines are the failure line of the command and the warning that
  names that folder. The folders named by the warning lines are, in order, the folders of
  the failed runs, so there is no other warning. What the driver prints from the closing
  rule on (the rule, Build complete and the hints) names no unit at all, failed or not. A
  run in which a subfolder failed still prints Build complete and exits with status 0: at
  once without --serve or when the server has ended, and else when the interrupt or the
  end of the server ends the waiting process.
\<close>

theorem failures_are_reported_per_unit:
  "(\<forall>pre cmd cwd post.
      trace (main env args fs) = pre @ Exec Pipe cmd cwd False # post \<longrightarrow>
      (\<exists>d rest. post = LogError (CommandFailed cmd) # LogError (HadErrors d) # rest \<and>
                cwd = folderPath env d))
   \<and> map (folderPath env) (warned (trace (main env args fs))) = failed (trace (main env args fs))
   \<and> concat (map names (summary (trace (main env args fs)))) = []
   \<and> (failed (trace (main env args fs)) \<noteq> [] \<longrightarrow>
        Log BuildComplete \<in> set (trace (main env args fs)) \<and>
        exited (main env args fs) =
          (if shouldServe args \<and> server_stays env (port_in_use env) then None else Some 0) \<and>
        (\<forall>e. exited (deliver e (main env args fs)) = Some 0))"
proof -
  have at_once: "\<exists>d rest. post = LogError (CommandFailed cmd) # LogError (HadErrors d) # rest \<and>
                cwd = folderPath env d"
    if "trace (main env args fs) = pre @ Exec Pipe cmd cwd False # post" for pre cmd cwd post
  proof -
    have "prompt env (pre @ Exec Pipe cmd cwd False # post)"
      using prompt_main [of env args fs] that by simp
    then have "follows env (cmd, cwd) post" by (rule prompt_D) simp
    then show ?thesis by (simp add: follows_def)
  qed
  have rest: "map (folderPath env) (warned (trace (main env args fs))) =
        failed (trace (main env args fs))
      \<and> concat (map names (summary (trace (main env args fs)))) = []
      \<and> (failed (trace (main env args fs)) \<noteq> [] \<longrightarrow>
        Log BuildComplete \<in> set (trace (main env args fs)) \<and>
        exited (main env args fs) =
          (if shouldServe args \<and> server_stays env (port_in_use env) then None else Some 0) \<and>
        (\<forall>e. exited (deliver e (main env args fs)) = Some 0))"
  proof (cases env args fs rule: main_cases)
    case stuck
    then show ?thesis by (simp add: main_unwritable summary_def)
  next
    case (fatal err)
    have "concat (map names (summary (trace (main env args fs)))) = []"
      using fatal by (simp add: summary_main)
    then show ?thesis
      by (simp add: main_fatal [OF fatal] start_events_def setup_events_def abort_events_def)
  next
    case complete
    have "concat (map names (summary (trace (main env args fs)))) = []"
      using complete by (simp add: summary_main closing_events_def)
    moreover have "map (folderPath env) (warned (trace (main env args fs))) =
        failed (trace (main env args fs))"
      by (simp add: main_complete [OF complete] start_events_def setup_events_def
          closing_events_def loop_def warned_failed_loop)
    moreover have "Log BuildComplete \<in> set (trace (main env args fs))"
      by (simp add: build_complete_iff complete)
    ultimately show ?thesis
      by (simp add: exit_complete [OF complete] deliver_complete [OF complete])
  qed
  from at_once rest show ?thesis by blast
qed

theorem failures_are_reported_per_unit_witness:
  "failed (trace (main books_fails_env [] abc_fs)) = [''/pldb/books''] \<and>
   warned (trace (main books_fails_env [] abc_fs)) = [''books''] \<and>
   (\<exists>pre rest. trace (main books_fails_env [] abc_fs) =
      pre @ Exec Pipe (buildCmd books_fails_env) ''/pldb/books'' False
          # LogError (CommandFailed (buildCmd books_fails_env))
          # LogError (HadErrors ''books'') # rest) \<and>
   concat (map names (summary (trace (main books_fails_env [] abc_fs)))) = [] \<and>
   Log BuildComplete \<in> set (trace (main books_fails_env [] abc_fs)) \<and>
   exited (main books_fails_env [] abc_fs) = Some 0"
proof -
  have f: "failed (trace (main books_fails_env [] abc_fs)) = [''/pldb/books'']"
    and w: "warned (trace (main books_fails_env [] abc_fs)) = [''books'']"
    by (simp_all add: run_defs world_defs)
  have "Exec Pipe (buildCmd books_fails_env) ''/pldb/books'' False
          \<in> set (trace (main books_fails_env [] abc_fs))"
    by (simp add: run_defs world_defs)
  then obtain pre post where
    tr: "trace (main books_fails_env [] abc_fs) =
           pre @ Exec Pipe (buildCmd books_fails_env) ''/pldb/books'' False # post"
    by (auto simp: in_set_conv_decomp)
  note main_fact = failures_are_reported_per_unit [of books_fails_env "[]" abc_fs]
  from main_fact tr obtain d rest where
    post: "post = LogError (CommandFailed (buildCmd books_fails_env)) # LogError (HadErrors d) # rest"
    and d: "''/pldb/books'' = folderPath books_fails_env d"
    by blast
  have "folderPath books_fails_env d = folderPath books_fails_env ''books''"
    using d by (simp add: folderPath_def ROOT_def sep_def is_sep_def world_defs)
  moreover have "d \<noteq> []"
    using d by (auto simp: folderPath_def ROOT_def sep_def is_sep_def world_defs)
  ultimately have "d = ''books''" by simp
  with tr post have "\<exists>pre rest. trace (main books_fails_env [] abc_fs) =
      pre @ Exec Pipe (buildCmd books_fails_env) ''/pldb/books'' False
          # LogError (CommandFailed (buildCmd books_fails_env))
          # LogError (HadErrors ''books'') # rest"
    by blast
  with main_fact f w show ?thesis
    by (simp add: shouldServe_def del: deliver.simps)
qed

text \<open>
  C4, as the claim states it, fails. In the run root, bridging, blog (success), books
  (failure), concepts (success), the lines the driver prints from the closing rule on are
  the rule, Build complete and the two hints: books failed and is named by none of them.
\<close>

theorem summary_lists_failed_units_counterexample:
  "invoked (trace (main books_fails_env [] abc_fs)) =
     [''/pldb'', ''/pldb'', ''/pldb/blog'', ''/pldb/books'', ''/pldb/concepts''] \<and>
   failed (trace (main books_fails_env [] abc_fs)) = [''/pldb/books''] \<and>
   summary (trace (main books_fails_env [] abc_fs)) =
     [Log RuleNL, Log BuildComplete, Log ToStartServer, Log OrNodeBuildServe, Exit 0] \<and>
   ''books'' \<notin> set (concat (map names (summary (trace (main books_fails_env [] abc_fs))))) \<and>
   exited (main books_fails_env [] abc_fs) = Some 0"
  by (simp add: run_defs world_defs summary_def)

subsection \<open>C5\<close>



subsection \<open>C6\<close>




subsection \<open>C7\<close>




subsection \<open>C8\<close>

text \<open>
  C8. A declared subfolder whose directory does not exist (and that no external tool
  creates during the run) is skipped silently: no command is run in it, and none of the
  lines of the loop is printed for it, neither Building, nor Running, nor built
  successfully, nor the warning. A run that reaches Step 5 still prints Build complete and
  exits with status 0: at once without --serve or when the server has ended, and else
  when the interrupt or the end of the server ends the waiting process.
\<close>

theorem missing_folder_is_skipped:
  assumes "d \<in> set SUBFOLDERS"
    and "tools_keep env (\<lambda>fs. existsSync fs (folderPath env d))"
    and "\<not> existsSync fs (folderPath env d)"
  shows "folderPath env d \<notin> set (invoked (trace (main env args fs))) \<and>
         Log (Building d) \<notin> set (trace (main env args fs)) \<and>
         Log (RunningQuiet d c) \<notin> set (trace (main env args fs)) \<and>
         Log (Built d) \<notin> set (trace (main env args fs)) \<and>
         LogError (HadErrors d) \<notin> set (trace (main env args fs)) \<and>
         (Log Step5 \<in> set (trace (main env args fs)) \<longrightarrow>
            Log BuildComplete \<in> set (trace (main env args fs)) \<and>
            exited (main env args fs) =
              (if shouldServe args \<and> server_stays env (port_in_use env) then None else Some 0) \<and>
            (\<forall>e. exited (deliver e (main env args fs)) = Some 0))"
proof (cases env args fs rule: main_cases)
  case stuck
  then show ?thesis by (simp add: main_unwritable)
next
  case (fatal err)
  have "folderPath env d \<notin> set (invoked (evs (prelude env (start_fs env args fs))))"
    using invoked_prelude_subset [of env "start_fs env args fs"] SUBFOLDERS_nonempty [OF assms(1)]
    by auto
  with fatal show ?thesis
    by (simp add: main_fatal start_events_def setup_events_def abort_events_def)
next
  case complete
  let ?fs = "fs_of (prelude env (start_fs env args fs))"
  have "\<not> existsSync ?fs (folderPath env d)"
    by (simp add: exists_at_loop assms)
  from loop_silent [OF assms(2,1) _ this, of SUBFOLDERS c]
  have quiet: "folderPath env d \<notin> set (invoked (trace (main env args fs))) \<and>
         Log (Building d) \<notin> set (trace (main env args fs)) \<and>
         Log (RunningQuiet d c) \<notin> set (trace (main env args fs)) \<and>
         Log (Built d) \<notin> set (trace (main env args fs)) \<and>
         LogError (HadErrors d) \<notin> set (trace (main env args fs))"
    using SUBFOLDERS_nonempty [OF assms(1)]
    by (simp add: main_complete [OF complete] loop_def [symmetric] invoked_prelude [OF complete(2)]
        start_events_def setup_events_def closing_events_def)
  have "Log BuildComplete \<in> set (trace (main env args fs))"
    by (simp add: build_complete_iff complete)
  with quiet show ?thesis
    by (simp add: exit_complete [OF complete] deliver_complete [OF complete])
qed

theorem missing_folder_is_skipped_witness:
  "''lists'' \<in> set SUBFOLDERS \<and>
   tools_keep linux_env (\<lambda>fs. existsSync fs (folderPath linux_env ''lists'')) \<and>
   \<not> existsSync abc_fs (folderPath linux_env ''lists'') \<and>
   Log Step5 \<in> set (trace (main linux_env [''-s''] abc_fs)) \<and>
   folderPath linux_env ''lists'' \<notin> set (invoked (trace (main linux_env [''-s''] abc_fs))) \<and>
   Log (Built ''lists'') \<notin> set (trace (main linux_env [''-s''] abc_fs)) \<and>
   LogError (HadErrors ''lists'') \<notin> set (trace (main linux_env [''-s''] abc_fs)) \<and>
   Log BuildComplete \<in> set (trace (main linux_env [''-s''] abc_fs)) \<and>
   exited (main linux_env [''-s''] abc_fs) = None \<and>
   exited (deliver Interrupt (main linux_env [''-s''] abc_fs)) = Some 0 \<and>
   exited (deliver ServerEnds (main linux_env [''-s''] abc_fs)) = Some 0"
proof -
  have d: "''lists'' \<in> set SUBFOLDERS" by (simp add: SUBFOLDERS_def)
  have n: "\<not> existsSync abc_fs (folderPath linux_env ''lists'')"
    by (simp add: existsSync_def folderPath_def ROOT_def sep_def is_sep_def world_defs)
  have s: "Log Step5 \<in> set (trace (main linux_env [''-s''] abc_fs))"
    by (simp add: run_defs world_defs)
  have r: "shouldServe [''-s'']" "server_stays linux_env (port_in_use linux_env)"
    by (simp_all add: shouldServe_def world_defs)
  from missing_folder_is_skipped [OF d tools_keep_linux n, of "[''-s'']"] d n s show ?thesis
    by (simp add: r del: deliver.simps)
qed

subsection \<open>C9\<close>

text \<open>
  C9. Under --serve, when index.html in the root can be written, the run begins by
  writing the maintenance page over whatever index.html held and spawning the server, and
  only then builds, starting from a file system whose index.html is the maintenance page.
  That spawn is the only one of the whole run. When the build completes, kill has not been
  called on the server, which therefore is the process that serves the built site; and if
  no external tool rewrites index.html, it still holds the maintenance page at the end, so
  the page changes only when the build regenerates it. When index.html cannot be written,
  the exception is uncaught: no command runs, no server is spawned, the status is 1.
\<close>

theorem maintenance_page_then_single_server:
  assumes "shouldServe args"
  shows "if writable env fs (indexPath env)
         then (\<exists>rest. trace (main env args fs) =
                 [Log SettingUp, WriteFile (indexPath env), Log WroteMaintenance,
                  Log StartingServer, Spawn ''npx'' [''serve'', ''.''] (ROOT env) Ignore True]
                 @ evs (build env (fs(indexPath env \<mapsto> File maintenanceHtml))) @ rest) \<and>
              filter is_Spawn (trace (main env args fs)) =
                [Spawn ''npx'' [''serve'', ''.''] (ROOT env) Ignore True] \<and>
              (Log BuildComplete \<in> set (trace (main env args fs)) \<longrightarrow>
                 serverProcess (main env args fs) = Some (ChildProcess True False) \<and>
                 Kill \<notin> set (trace (main env args fs)) \<and>
                 (tools_keep env (\<lambda>fs. fs (indexPath env)) \<longrightarrow>
                    disk (main env args fs) (indexPath env) = Some (File maintenanceHtml)))
         else invoked (trace (main env args fs)) = [] \<and>
              filter is_Spawn (trace (main env args fs)) = [] \<and>
              exited (main env args fs) = Some 1"
proof (cases "writable env fs (indexPath env)")
  case False
  then have "\<not> can_start env args fs" by (simp add: can_start_def assms)
  with False show ?thesis by (simp add: main_unwritable)
next
  case True
  then have cs: "can_start env args fs" by (simp add: can_start_def)
  have sf: "start_fs env args fs = fs(indexPath env \<mapsto> File maintenanceHtml)"
    by (simp add: start_fs_def assms)
  have se: "start_events env args =
              [Log SettingUp, WriteFile (indexPath env), Log WroteMaintenance,
               Log StartingServer, Spawn ''npx'' [''serve'', ''.''] (ROOT env) Ignore True]"
    by (simp add: start_events_def setup_events_def assms)
  show ?thesis
  proof (cases "res (prelude env (start_fs env args fs))")
    case (Inl err)
    have "Log BuildComplete \<notin> set (trace (main env args fs))"
      by (simp add: build_complete_iff Inl)
    moreover have "trace (main env args fs) =
        start_events env args @ evs (build env (start_fs env args fs))
        @ abort_events (shouldServe args) err"
      by (simp add: main_fatal [OF cs Inl] evs_build Inl)
    moreover have "filter is_Spawn (trace (main env args fs)) =
        [Spawn ''npx'' [''serve'', ''.''] (ROOT env) Ignore True]"
      by (simp add: main_fatal [OF cs Inl] se abort_events_def)
    ultimately show ?thesis using True by (simp add: se sf)
  next
    case (Inr u)
    then have ok: "res (prelude env (start_fs env args fs)) = Inr ()" by simp
    have "trace (main env args fs) =
        start_events env args @ evs (build env (start_fs env args fs))
        @ closing_events env args"
      by (simp add: main_complete [OF cs ok] evs_build ok)
    moreover have "filter is_Spawn (trace (main env args fs)) =
        [Spawn ''npx'' [''serve'', ''.''] (ROOT env) Ignore True]"
      by (simp add: main_complete [OF cs ok] se closing_events_def)
    moreover have "serverProcess (main env args fs) = Some (ChildProcess True False)"
      by (simp add: main_complete [OF cs ok] assms)
    moreover have "Kill \<notin> set (trace (main env args fs))"
      by (simp add: main_complete [OF cs ok] se closing_events_def)
    moreover have "disk (main env args fs) (indexPath env) = Some (File maintenanceHtml)"
      if "tools_keep env (\<lambda>fs. fs (indexPath env))"
      by (simp add: main_complete [OF cs ok] index_kept_by_build [OF that] sf)
    ultimately show ?thesis using True by (simp add: se sf)
  qed
qed

theorem maintenance_page_then_single_server_witness:
  "shouldServe [''--serve''] \<and>
   writable linux_env site_fs (indexPath linux_env) \<and>
   site_fs (indexPath linux_env) = Some (File ''<html>old</html>'') \<and>
   Log BuildComplete \<in> set (trace (main linux_env [''--serve''] site_fs)) \<and>
   filter is_Spawn (trace (main linux_env [''--serve''] site_fs)) =
     [Spawn ''npx'' [''serve'', ''.''] (ROOT linux_env) Ignore True] \<and>
   serverProcess (main linux_env [''--serve''] site_fs) = Some (ChildProcess True False) \<and>
   disk (main linux_env [''--serve''] site_fs) (indexPath linux_env) =
     Some (File maintenanceHtml)"
proof -
  have s: "shouldServe [''--serve'']" by (simp add: shouldServe_def)
  have w: "writable linux_env site_fs (indexPath linux_env)"
    and o: "site_fs (indexPath linux_env) = Some (File ''<html>old</html>'')"
    by (simp_all add: writable_def indexPath_def ROOT_def sep_def is_sep_def world_defs)
  have h: "Log BuildComplete \<in> set (trace (main linux_env [''--serve''] site_fs))"
    by (simp add: run_defs world_defs)
  from maintenance_page_then_single_server [OF s, of linux_env site_fs] w h
  have "filter is_Spawn (trace (main linux_env [''--serve''] site_fs)) =
          [Spawn ''npx'' [''serve'', ''.''] (ROOT linux_env) Ignore True] \<and>
        serverProcess (main linux_env [''--serve''] site_fs) = Some (ChildProcess True False) \<and>
        disk (main linux_env [''--serve''] site_fs) (indexPath linux_env) =
          Some (File maintenanceHtml)"
    by simp
  with s w o h show ?thesis by simp
qed

subsection \<open>C10\<close>

text \<open>
  C10. On every platform other than win32, Step 2 changes no file: patchScrollCliIfNeeded
  returns at once, the file system is the one it was given, and its only effect is the
  console line that says so.
\<close>

theorem patch_skipped_off_windows:
  "platform env \<noteq> ''win32'' \<Longrightarrow>
     patchScrollCliIfNeeded env fs = (Inr (), fs, [Log NotOnWindows])"
  by (simp add: patchScrollCliIfNeeded_def console_log_def emit_def)

theorem patch_skipped_off_windows_witness:
  "platform linux_env \<noteq> ''win32'' \<and>
   patchScrollCliIfNeeded linux_env site_fs = (Inr (), site_fs, [Log NotOnWindows])"
  using patch_skipped_off_windows [of linux_env site_fs] by (simp add: linux_env_def)

end
